theory Spec2Isabelle
  imports Main "HOL-Library.AList"
begin

section \<open>Values\<close>

text \<open>
  JavaScript values as far as the reactive engine looks at them. Numbers other than NaN are
  integers here; objects and arrays live in a heap and are referred to by address, so two
  references are strictly equal exactly when they are the same object.
\<close>

datatype jsval = VUndef | VNull | VBool bool | VNum int | VNaN | VStr string | VRef nat

text \<open>\<open>a === b\<close>: two NaN are never strictly equal.\<close>

definition strict_eq :: "jsval \<Rightarrow> jsval \<Rightarrow> bool" where
  "strict_eq a b \<longleftrightarrow> a = b \<and> a \<noteq> VNaN"

text \<open>\<open>isObject\<close> of the shared utilities: \<open>obj !== null && typeof obj === 'object'\<close>.\<close>

fun isObject :: "jsval \<Rightarrow> bool" where
  "isObject (VRef r) = True"
| "isObject v = False"

section \<open>User code\<close>

text \<open>
  Getters, watcher callbacks, lifecycle hooks and \<open>data()\<close> factories are user code. A piece
  of user code is a tree of its interactions with the engine: it reads and writes properties of
  heap objects, reads computed properties (through their watcher), triggers lifecycle hooks and
  \<open>data()\<close> factories (as a render function does when it creates a child component), tears
  watchers down, and finally returns a value or throws. What it does next may depend on every
  value it has read.
\<close>

datatype prog =
    Return jsval
  | Throw string
  | Read nat string "jsval \<Rightarrow> prog"
  | Write nat string jsval prog
  | ReadComputed nat "jsval \<Rightarrow> prog"
  | CallHook nat string prog
  | GetData nat prog "jsval \<Rightarrow> prog"
  | Teardown nat prog

section \<open>Data model\<close>

datatype okind = PlainObject | ArrayObject | VNodeObject | OtherObject

text \<open>An \<open>Observer\<close> (observer/index.js): its own \<open>Dep\<close>, by id, and \<open>vmCount\<close>.\<close>

record observer =
  odep :: nat
  vmCount :: nat

text \<open>
  One property of an object. \<open>pget\<close>, \<open>pset\<close> say whether the property descriptor found by
  \<open>defineReactive\<close> had a getter and a setter; such an accessor pair reads and writes the cell
  \<open>backing\<close>. The other fields are the variables of the closure that \<open>defineReactive\<close>
  creates: \<open>val\<close>, \<open>dep\<close> (by id), \<open>childOb\<close> (the observed object, by address),
  \<open>shallow\<close> and whether a \<open>customSetter\<close> was given. For a property that is not (yet)
  reactive, \<open>pval\<close> is the value of the data property.
\<close>

record property =
  reactive :: bool
  configurable :: bool
  pget :: bool
  pset :: bool
  backing :: jsval
  pval :: jsval
  pdep :: nat
  childOb :: "nat option"
  shallow :: bool
  customSetter :: bool

record obj =
  okind :: okind
  extensible :: bool
  frozen :: bool
  isVue :: bool
  ob :: "observer option"
  items :: "jsval list"
  props :: "(string \<times> property) list"

text \<open>A \<open>Watcher\<close> (observer/watcher.js). Watchers and Deps are referred to by their id.\<close>

record watcher =
  vm :: nat
  expression :: string
  cb :: "jsval \<Rightarrow> jsval \<Rightarrow> prog"
  deep :: bool
  user :: bool
  computed :: bool
  sync :: bool
  dirty :: bool
  active :: bool
  wdep :: "nat option"
  deps :: "nat list"
  newDeps :: "nat list"
  depIds :: "nat set"
  newDepIds :: "nat set"
  before :: "prog option"
  getter :: prog
  wvalue :: jsval

text \<open>The part of a component instance that the engine touches.\<close>

record component =
  vwatchers :: "nat list"
  vwatcher :: "nat option"
  isBeingDestroyed :: bool
  isMounted :: bool
  hasHookEvent :: bool
  hooks :: "string \<Rightarrow> prog list"
  hookListeners :: "string \<Rightarrow> prog list"

text \<open>
  What the engine hands to its collaborators and what it does, in order: \<open>handleError\<close>,
  \<open>warn\<close> and \<open>nextTick\<close> are outside the engine and only recorded; the other events record
  calls inside the engine, so that theorems can count them.
\<close>

datatype event =
    HandleError string nat string
  | Warn string
  | NextTick
  | Depend nat nat
  | GetterCall nat
  | CbCall nat jsval jsval
  | Notify nat
  | RunCall nat
  | HookCall nat string

text \<open>
  The whole state: the module variables of dep.js (\<open>uid\<close>, \<open>Dep.target\<close>, \<open>targetStack\<close>;
  \<open>subs\<close> gives each Dep's subscriber list), of watcher.js (\<open>uid\<close>), of observer/index.js
  (\<open>shouldObserve\<close>), of the scheduler (\<open>queue\<close>, \<open>has\<close>, \<open>circular\<close>, \<open>waiting\<close>,
  \<open>flushing\<close>, \<open>index\<close>), the heap, the component instances, and the environment
  (\<open>dev\<close> is \<open>process.env.NODE_ENV !== 'production'\<close>, \<open>ssr\<close> is \<open>isServerRendering()\<close>).
  In \<open>has\<close>, \<open>None\<close> stands for both \<open>undefined\<close> and \<open>null\<close>: the scheduler only tests
  \<open>has[id] == null\<close>. A missing entry of \<open>circular\<close> counts as 0, as \<open>circular[id] || 0\<close>.
  The keep-alive activation queue \<open>activatedChildren\<close> is fed only by the virtual-DOM patch,
  which is outside the engine; it stays empty here.
\<close>

record state =
  dep_uid :: nat
  subs :: "nat \<Rightarrow> nat list"
  target :: "nat option"
  targetStack :: "nat list"
  watcher_uid :: nat
  watchers :: "nat \<Rightarrow> watcher"
  shouldObserve :: bool
  heap :: "nat \<Rightarrow> obj"
  next_ref :: nat
  vms :: "nat \<Rightarrow> component"
  queue :: "nat list"
  has :: "nat \<Rightarrow> bool option"
  circular :: "nat \<Rightarrow> nat"
  waiting :: bool
  flushing :: bool
  index :: nat
  dev :: bool
  ssr :: bool
  events :: "event list"

definition emit :: "event \<Rightarrow> state \<Rightarrow> state" where
  "emit e s = s\<lparr>events := events s @ [e]\<rparr>"

definition upd_watcher :: "nat \<Rightarrow> (watcher \<Rightarrow> watcher) \<Rightarrow> state \<Rightarrow> state" where
  "upd_watcher w f s = s\<lparr>watchers := (watchers s)(w := f (watchers s w))\<rparr>"

section \<open>Dep (observer/dep.js)\<close>

text \<open>
  \<open>pushTarget\<close> saves the current target only when there is one; \<open>popTarget\<close> takes the
  last saved target, and \<open>undefined\<close> when nothing is saved.
\<close>

definition pushTarget :: "nat option \<Rightarrow> state \<Rightarrow> state" where
  "pushTarget t s =
     s\<lparr>targetStack := (case target s of Some w \<Rightarrow> targetStack s @ [w] | None \<Rightarrow> targetStack s),
       target := t\<rparr>"

definition popTarget :: "state \<Rightarrow> state" where
  "popTarget s =
     (if targetStack s = [] then s\<lparr>target := None\<rparr>
      else s\<lparr>target := Some (last (targetStack s)), targetStack := butlast (targetStack s)\<rparr>)"

definition addSub :: "nat \<Rightarrow> nat \<Rightarrow> state \<Rightarrow> state" where
  "addSub d w s = s\<lparr>subs := (subs s)(d := subs s d @ [w])\<rparr>"

text \<open>
  Modelled from the spec: the utility \<open>remove(arr, item)\<close> that \<open>removeSub\<close> and
  \<open>teardown\<close> call is not among the sources; "remove if present; no-op otherwise" is the
  removal of the first occurrence.
\<close>

definition remove_item :: "nat \<Rightarrow> nat list \<Rightarrow> nat list" where
  "remove_item x xs = remove1 x xs"

definition removeSub :: "nat \<Rightarrow> nat \<Rightarrow> state \<Rightarrow> state" where
  "removeSub d w s = s\<lparr>subs := (subs s)(d := remove_item w (subs s d))\<rparr>"

section \<open>Watcher: dependency bookkeeping (observer/watcher.js)\<close>

definition addDep :: "nat \<Rightarrow> nat \<Rightarrow> state \<Rightarrow> state" where
  "addDep w d s =
     (if d \<notin> newDepIds (watchers s w) then
        let s1 = upd_watcher w (\<lambda>W. W\<lparr>newDepIds := insert d (newDepIds W),
                                        newDeps := newDeps W @ [d]\<rparr>) s
        in if d \<notin> depIds (watchers s1 w) then addSub d w s1 else s1
      else s)"

text \<open>\<open>Dep.depend\<close>; the call is recorded when there is a target.\<close>

definition depend :: "nat \<Rightarrow> state \<Rightarrow> state" where
  "depend d s = (case target s of None \<Rightarrow> s | Some w \<Rightarrow> addDep w d (emit (Depend w d) s))"

text \<open>The \<open>while (i--)\<close> loop of \<open>cleanupDeps\<close>, over \<open>deps\<close> from its last element.\<close>

fun cleanup_loop :: "nat \<Rightarrow> nat list \<Rightarrow> state \<Rightarrow> state" where
  "cleanup_loop w [] s = s"
| "cleanup_loop w (d # ds) s =
     cleanup_loop w ds (if d \<notin> newDepIds (watchers s w) then removeSub d w s else s)"

definition cleanupDeps :: "nat \<Rightarrow> state \<Rightarrow> state" where
  "cleanupDeps w s =
     (let s1 = cleanup_loop w (rev (deps (watchers s w))) s
      in upd_watcher w (\<lambda>W. W\<lparr>depIds := newDepIds W, newDepIds := {},
                               deps := newDeps W, newDeps := []\<rparr>) s1)"

definition teardown :: "nat \<Rightarrow> state \<Rightarrow> state" where
  "teardown w s =
     (if active (watchers s w) then
        let v = vm (watchers s w);
            s1 = (if \<not> isBeingDestroyed (vms s v)
                  then s\<lparr>vms := (vms s)(v := (vms s v)\<lparr>vwatchers := remove_item w (vwatchers (vms s v))\<rparr>)\<rparr>
                  else s);
            s2 = fold (\<lambda>d. removeSub d w) (rev (deps (watchers s1 w))) s1
        in upd_watcher w (\<lambda>W. W\<lparr>active := False\<rparr>) s2
      else s)"

text \<open>\<open>Watcher.depend\<close>, for computed watchers.\<close>

definition watcher_depend :: "nat \<Rightarrow> state \<Rightarrow> state" where
  "watcher_depend w s =
     (case wdep (watchers s w) of
        Some d \<Rightarrow> (if target s \<noteq> None then depend d s else s)
      | None \<Rightarrow> s)"

section \<open>Scheduler: queue (observer/scheduler.js)\<close>

definition MAX_UPDATE_COUNT :: nat where
  "MAX_UPDATE_COUNT = 100"

definition resetSchedulerState :: "state \<Rightarrow> state" where
  "resetSchedulerState s =
     s\<lparr>index := 0, queue := [], has := (\<lambda>_. None),
       circular := (if dev s then (\<lambda>_. 0) else circular s),
       waiting := False, flushing := False\<rparr>"

text \<open>
  The backward scan of \<open>queueWatcher\<close>:
  \<open>while (i > index && queue[i].id > watcher.id) i--\<close>, started at \<open>queue.length - 1\<close>
  (which is \<open>-1\<close> for an empty queue).
\<close>

function scan :: "nat list \<Rightarrow> nat \<Rightarrow> nat \<Rightarrow> int \<Rightarrow> int" where
  "scan q idx wid i = (if i > int idx \<and> q ! nat i > wid then scan q idx wid (i - 1) else i)"
  by pat_completeness auto
termination
  by (relation "measure (\<lambda>(q, idx, wid, i). nat i)") auto

declare scan.simps [simp del]

text \<open>\<open>queue.splice(i, 0, w)\<close>.\<close>

definition splice_in :: "nat \<Rightarrow> nat \<Rightarrow> nat list \<Rightarrow> nat list" where
  "splice_in i w q = take i q @ [w] @ drop i q"

definition queueWatcher :: "nat \<Rightarrow> state \<Rightarrow> state" where
  "queueWatcher w s =
     (if has s w = None then
        let s1 = s\<lparr>has := (has s)(w := Some True)\<rparr>;
            s2 = (if \<not> flushing s1 then s1\<lparr>queue := queue s1 @ [w]\<rparr>
                  else let i = scan (queue s1) (index s1) w (int (length (queue s1)) - 1)
                       in s1\<lparr>queue := splice_in (nat (i + 1)) w (queue s1)\<rparr>)
        in if \<not> waiting s2 then emit NextTick (s2\<lparr>waiting := True\<rparr>) else s2
      else s)"

section \<open>Initial state\<close>

definition empty_watcher :: watcher where
  "empty_watcher =
     \<lparr>vm = 0, expression = [], cb = (\<lambda>_ _. Return VUndef), deep = False, user = False,
      computed = False, sync = False, dirty = False, active = False, wdep = None, deps = [],
      newDeps = [], depIds = {}, newDepIds = {}, before = None, getter = Return VUndef,
      wvalue = VUndef\<rparr>"

definition empty_obj :: obj where
  "empty_obj =
     \<lparr>okind = PlainObject, extensible = True, frozen = False, isVue = False, ob = None,
      items = [], props = []\<rparr>"

definition empty_component :: component where
  "empty_component =
     \<lparr>vwatchers = [], vwatcher = None, isBeingDestroyed = False, isMounted = False,
      hasHookEvent = False, hooks = (\<lambda>_. []), hookListeners = (\<lambda>_. [])\<rparr>"

text \<open>The module variables as the modules initialise them, in a development build.\<close>

definition init :: state where
  "init =
     \<lparr>dep_uid = 0, subs = (\<lambda>_. []), target = None, targetStack = [], watcher_uid = 0,
      watchers = (\<lambda>_. empty_watcher), shouldObserve = True, heap = (\<lambda>_. empty_obj),
      next_ref = 0, vms = (\<lambda>_. empty_component), queue = [], has = (\<lambda>_. None),
      circular = (\<lambda>_. 0), waiting = False, flushing = False, index = 0, dev = True,
      ssr = False, events = []\<rparr>"

section \<open>Observer (observer/index.js)\<close>

text \<open>
  Calls that can run out of the fuel given to them return \<open>None\<close> (for the parts of the engine
  that run no user code) or \<open>OutOfFuel\<close>; fuel bounds the depth of nested calls and the length
  of loops, which JavaScript does not bound.
\<close>

datatype 'a res = Ok 'a | Exn string | OutOfFuel

definition getprop :: "state \<Rightarrow> nat \<Rightarrow> string \<Rightarrow> property option" where
  "getprop s r k = map_of (props (heap s r)) k"

definition setprop :: "nat \<Rightarrow> string \<Rightarrow> property \<Rightarrow> state \<Rightarrow> state" where
  "setprop r k p s =
     s\<lparr>heap := (heap s)(r := (heap s r)\<lparr>props := AList.update k p (props (heap s r))\<rparr>)\<rparr>"

definition upd_prop :: "nat \<Rightarrow> string \<Rightarrow> (property \<Rightarrow> property) \<Rightarrow> state \<Rightarrow> state" where
  "upd_prop r k f s = (case getprop s r k of Some p \<Rightarrow> setprop r k (f p) s | None \<Rightarrow> s)"

text \<open>A property that \<open>Object.getOwnPropertyDescriptor\<close> does not find.\<close>

definition absent_property :: property where
  "absent_property =
     \<lparr>reactive = False, configurable = True, pget = False, pset = False, backing = VUndef,
      pval = VUndef, pdep = 0, childOb = None, shallow = False, customSetter = False\<rparr>"

text \<open>
  \<open>getter ? getter.call(obj) : val\<close>, the current value of a reactive property, and the
  comparison of \<open>reactiveSetter\<close>:
  \<open>newVal === value || (newVal !== newVal && value !== value)\<close>.
\<close>

definition current_value :: "property \<Rightarrow> jsval" where
  "current_value p = (if pget p then backing p else pval p)"

definition same_value :: "jsval \<Rightarrow> jsval \<Rightarrow> bool" where
  "same_value newVal val \<longleftrightarrow>
     strict_eq newVal val \<or> (\<not> strict_eq newVal newVal \<and> \<not> strict_eq val val)"

text \<open>\<open>obj[key]\<close> on a property that is not reactive.\<close>

definition raw_value :: "property \<Rightarrow> jsval" where
  "raw_value p = (if pget p then backing p else if pset p then VUndef else pval p)"

text \<open>
  \<open>observe\<close>, the \<open>Observer\<close> constructor with \<open>observeArray\<close> and \<open>walk\<close>, and
  \<open>defineReactive\<close>. \<open>observe\<close> returns the observed object (the owner of the Observer it
  returns) or nothing. \<open>defineReactive\<close> takes \<open>val\<close> as an option: \<open>None\<close> is the call
  with two arguments.
\<close>

function (sequential) observe :: "nat \<Rightarrow> jsval \<Rightarrow> bool \<Rightarrow> state \<Rightarrow> (state \<times> nat option) option"
  and Observer :: "nat \<Rightarrow> nat \<Rightarrow> state \<Rightarrow> state option"
  and observeArray :: "nat \<Rightarrow> jsval list \<Rightarrow> state \<Rightarrow> state option"
  and walk :: "nat \<Rightarrow> nat \<Rightarrow> string list \<Rightarrow> state \<Rightarrow> state option"
  and defineReactive ::
    "nat \<Rightarrow> nat \<Rightarrow> string \<Rightarrow> jsval option \<Rightarrow> bool \<Rightarrow> bool \<Rightarrow> state \<Rightarrow> state option"
where
  "observe 0 v asRootData s = None"
| "observe (Suc n) v asRootData s =
     (case v of
        VRef r \<Rightarrow>
          if okind (heap s r) = VNodeObject then Some (s, None)
          else
            (case (if ob (heap s r) \<noteq> None then Some (s, Some r)
                   else if shouldObserve s \<and> \<not> ssr s \<and>
                           (okind (heap s r) = ArrayObject \<or> okind (heap s r) = PlainObject) \<and>
                           extensible (heap s r) \<and> \<not> isVue (heap s r)
                   then (case Observer n r s of None \<Rightarrow> None | Some s1 \<Rightarrow> Some (s1, Some r))
                   else Some (s, None)) of
               None \<Rightarrow> None
             | Some (s2, None) \<Rightarrow> Some (s2, None)
             | Some (s2, Some a) \<Rightarrow>
                 if asRootData
                 then Some (s2\<lparr>heap := (heap s2)(a := (heap s2 a)
                         \<lparr>ob := map_option (\<lambda>b. b\<lparr>vmCount := vmCount b + 1\<rparr>) (ob (heap s2 a))\<rparr>)\<rparr>,
                       Some a)
                 else Some (s2, Some a))
      | _ \<Rightarrow> Some (s, None))"
| "Observer 0 r s = None"
| "Observer (Suc n) r s =
     (let d = dep_uid s;
          s1 = s\<lparr>dep_uid := d + 1,
                 heap := (heap s)(r := (heap s r)\<lparr>ob := Some \<lparr>odep = d, vmCount = 0\<rparr>\<rparr>)\<rparr>
      in if okind (heap s1 r) = ArrayObject then observeArray n (items (heap s1 r)) s1
         else walk n r (map fst (props (heap s1 r))) s1)"
| "observeArray 0 vs s = None"
| "observeArray (Suc n) [] s = Some s"
| "observeArray (Suc n) (v # vs) s =
     (case observe n v False s of None \<Rightarrow> None | Some (s1, _) \<Rightarrow> observeArray n vs s1)"
| "walk 0 r ks s = None"
| "walk (Suc n) r [] s = Some s"
| "walk (Suc n) r (k # ks) s =
     (case defineReactive n r k None False False s of None \<Rightarrow> None | Some s1 \<Rightarrow> walk n r ks s1)"
| "defineReactive 0 r k valopt cs sh s = None"
| "defineReactive (Suc n) r k valopt cs sh s =
     (let d = dep_uid s;
          s0 = s\<lparr>dep_uid := d + 1\<rparr>;
          p = (case getprop s0 r k of Some p \<Rightarrow> p | None \<Rightarrow> absent_property)
      in if \<not> configurable p then Some s0
         else
           let val = (case valopt of
                        Some v \<Rightarrow> v
                      | None \<Rightarrow> if \<not> pget p \<or> pset p then raw_value p else VUndef)
           in case (if sh then Some (s0, None) else observe n val False s0) of
                None \<Rightarrow> None
              | Some (s1, c) \<Rightarrow>
                  Some (setprop r k (p\<lparr>reactive := True, configurable := True, pval := val,
                                      pdep := d, childOb := c, shallow := sh,
                                      customSetter := cs\<rparr>) s1))"
  by pat_completeness auto
termination
  by (relation "measure (case_sum (case_sum fst fst) (case_sum fst (case_sum fst fst)))") simp_all

text \<open>\<open>dependArray\<close>: every observed element gets \<open>depend()\<close>, arrays recursively.\<close>

function (sequential) dependArray :: "nat \<Rightarrow> jsval list \<Rightarrow> state \<Rightarrow> state option" where
  "dependArray 0 vs s = None"
| "dependArray (Suc n) [] s = Some s"
| "dependArray (Suc n) (e # es) s =
     (case e of
        VRef r \<Rightarrow>
          (let s1 = (case ob (heap s r) of Some b \<Rightarrow> depend (odep b) s | None \<Rightarrow> s)
           in case (if okind (heap s1 r) = ArrayObject
                    then dependArray n (items (heap s1 r)) s1 else Some s1) of
                None \<Rightarrow> None
              | Some s2 \<Rightarrow> dependArray n es s2)
      | _ \<Rightarrow> dependArray n es s)"
  by pat_completeness auto
termination
  by (relation "measure fst") simp_all

text \<open>The \<open>reactiveGetter\<close> that \<open>defineReactive\<close> installs, for the property \<open>p\<close>.\<close>

definition reactiveGetter :: "nat \<Rightarrow> property \<Rightarrow> state \<Rightarrow> (state \<times> jsval) option" where
  "reactiveGetter n p s =
     (let value = current_value p
      in if target s \<noteq> None then
           let s1 = depend (pdep p) s
           in case childOb p of
                Some c \<Rightarrow>
                  (let s2 = (case ob (heap s1 c) of Some b \<Rightarrow> depend (odep b) s1 | None \<Rightarrow> s1)
                   in case value of
                        VRef a \<Rightarrow>
                          if okind (heap s2 a) = ArrayObject
                          then (case dependArray n (items (heap s2 a)) s2 of
                                  None \<Rightarrow> None
                                | Some s3 \<Rightarrow> Some (s3, value))
                          else Some (s2, value)
                      | _ \<Rightarrow> Some (s2, value))
              | None \<Rightarrow> Some (s1, value)
         else Some (s, value))"

text \<open>The property read \<open>obj[key]\<close>.\<close>

definition get_prop :: "nat \<Rightarrow> nat \<Rightarrow> string \<Rightarrow> state \<Rightarrow> (state \<times> jsval) option" where
  "get_prop n r k s =
     (case getprop s r k of
        None \<Rightarrow> Some (s, VUndef)
      | Some p \<Rightarrow> if reactive p then reactiveGetter n p s else Some (s, raw_value p))"

section \<open>Deep traversal (observer/traverse.js)\<close>

function (sequential) traverse_rec :: "nat \<Rightarrow> jsval \<Rightarrow> nat set \<Rightarrow> state \<Rightarrow> (state \<times> nat set) option"
  and traverse_items :: "nat \<Rightarrow> jsval list \<Rightarrow> nat set \<Rightarrow> state \<Rightarrow> (state \<times> nat set) option"
  and traverse_keys ::
    "nat \<Rightarrow> nat \<Rightarrow> string list \<Rightarrow> nat set \<Rightarrow> state \<Rightarrow> (state \<times> nat set) option"
where
  "traverse_rec 0 val seen s = None"
| "traverse_rec (Suc n) val seen s =
     (case val of
        VRef r \<Rightarrow>
          if frozen (heap s r) \<or> okind (heap s r) = VNodeObject then Some (s, seen)
          else
            (let skip = (case ob (heap s r) of Some b \<Rightarrow> odep b \<in> seen | None \<Rightarrow> False);
                 seen1 = (case ob (heap s r) of Some b \<Rightarrow> insert (odep b) seen | None \<Rightarrow> seen)
             in if skip then Some (s, seen)
                else if okind (heap s r) = ArrayObject
                then traverse_items n (rev (items (heap s r))) seen1 s
                else traverse_keys n r (rev (map fst (props (heap s r)))) seen1 s)
      | _ \<Rightarrow> Some (s, seen))"
| "traverse_items 0 vs seen s = None"
| "traverse_items (Suc n) [] seen s = Some (s, seen)"
| "traverse_items (Suc n) (v # vs) seen s =
     (case traverse_rec n v seen s of
        None \<Rightarrow> None
      | Some (s1, seen1) \<Rightarrow> traverse_items n vs seen1 s1)"
| "traverse_keys 0 r ks seen s = None"
| "traverse_keys (Suc n) r [] seen s = Some (s, seen)"
| "traverse_keys (Suc n) r (k # ks) seen s =
     (case get_prop n r k s of
        None \<Rightarrow> None
      | Some (s1, v) \<Rightarrow>
          (case traverse_rec n v seen s1 of
             None \<Rightarrow> None
           | Some (s2, seen1) \<Rightarrow> traverse_keys n r ks seen1 s2))"
  by pat_completeness auto
termination
  by (relation "measure (case_sum fst (case_sum fst fst))") simp_all

text \<open>\<open>traverse\<close>: the set of seen Dep ids is cleared after each traversal.\<close>

definition traverse :: "nat \<Rightarrow> jsval \<Rightarrow> state \<Rightarrow> state option" where
  "traverse n val s = map_option fst (traverse_rec n val {} s)"

section \<open>Watchers, setters and hooks: the calls that run user code\<close>

text \<open>Sequencing: an exception or exhausted fuel ends the sequence.\<close>

definition andThen ::
  "state \<times> jsval res \<Rightarrow> (state \<Rightarrow> jsval \<Rightarrow> state \<times> jsval res) \<Rightarrow> state \<times> jsval res" where
  "andThen m f = (case m of (s, Ok v) \<Rightarrow> f s v | (s, Exn e) \<Rightarrow> (s, Exn e)
                  | (s, OutOfFuel) \<Rightarrow> (s, OutOfFuel))"

text \<open>\<open>handleError(e, vm, info)\<close> is the error-reporting collaborator.\<close>

definition handleError :: "string \<Rightarrow> nat \<Rightarrow> string \<Rightarrow> state \<Rightarrow> state" where
  "handleError e v info s = emit (HandleError e v info) s"

definition quoted :: "string \<Rightarrow> string" where
  "quoted x = CHR 0x22 # x @ [CHR 0x22]"

text \<open>The assignment \<open>obj[key] = v\<close> to a property that is not reactive.\<close>

definition plain_write :: "nat \<Rightarrow> string \<Rightarrow> jsval \<Rightarrow> state \<Rightarrow> state" where
  "plain_write r k v s =
     (case getprop s r k of
        Some p \<Rightarrow>
          if pset p then setprop r k (p\<lparr>backing := v\<rparr>) s
          else if pget p \<or> frozen (heap s r) then s
          else setprop r k (p\<lparr>pval := v\<rparr>) s
      | None \<Rightarrow>
          if extensible (heap s r) then setprop r k (absent_property\<lparr>pval := v\<rparr>) s else s)"

text \<open>
  The \<open>catch\<close> and \<open>finally\<close> blocks of \<open>Watcher.get\<close>, entered with the outcome \<open>r\<close> of
  the getter: a thrown error is reported for a user watcher and thrown again otherwise; then
  a deep watcher traverses the value (\<open>undefined\<close> when the getter threw), the target is popped
  and the dependencies are cleaned up; the value is returned unless the error is thrown again.
\<close>

definition get_finally :: "nat \<Rightarrow> nat \<Rightarrow> jsval res \<Rightarrow> state \<Rightarrow> state \<times> jsval res" where
  "get_finally n w r s2 =
     (let W = watchers s2 w;
          s3 = (case r of
                  Exn e \<Rightarrow>
                    if user W
                    then handleError e (vm W) (''getter for watcher '' @ quoted (expression W)) s2
                    else s2
                | _ \<Rightarrow> s2);
          val = (case r of Ok v \<Rightarrow> v | _ \<Rightarrow> VUndef)
      in case (if deep W then traverse n val s3 else Some s3) of
           None \<Rightarrow> (s3, OutOfFuel)
         | Some s4 \<Rightarrow>
             (cleanupDeps w (popTarget s4),
              case r of Exn e \<Rightarrow> if user W then Ok val else Exn e | _ \<Rightarrow> Ok val))"

text \<open>
  \<open>exec\<close> runs user code. \<open>get\<close>, \<open>getAndInvoke\<close>, \<open>run\<close>, \<open>update\<close> and
  \<open>evaluate\<close> are the methods of \<open>Watcher\<close>; \<open>getAndInvoke\<close> is called with the
  watcher's own callback (\<open>True\<close>) or with \<open>() => this.dep.notify()\<close> (\<open>False\<close>).
  \<open>notify\<close> is \<open>Dep.notify\<close>, which iterates over a copy of the subscriber list.
  \<open>reactiveSetter\<close> is the setter that \<open>defineReactive\<close> installs. \<open>callHook\<close>
  (instance/lifecycle.js) invokes the handlers of a hook and then, for an instance with
  hook-event listeners, \<open>$emit\<close>, which invokes the listeners the same way; \<open>getData\<close>
  (instance/state.js) runs a \<open>data()\<close> factory.
\<close>

function (sequential) exec :: "nat \<Rightarrow> prog \<Rightarrow> state \<Rightarrow> state \<times> jsval res"
  and get :: "nat \<Rightarrow> nat \<Rightarrow> state \<Rightarrow> state \<times> jsval res"
  and getAndInvoke :: "nat \<Rightarrow> nat \<Rightarrow> bool \<Rightarrow> state \<Rightarrow> state \<times> jsval res"
  and run :: "nat \<Rightarrow> nat \<Rightarrow> state \<Rightarrow> state \<times> jsval res"
  and update :: "nat \<Rightarrow> nat \<Rightarrow> state \<Rightarrow> state \<times> jsval res"
  and notify :: "nat \<Rightarrow> nat \<Rightarrow> state \<Rightarrow> state \<times> jsval res"
  and notify_loop :: "nat \<Rightarrow> nat list \<Rightarrow> state \<Rightarrow> state \<times> jsval res"
  and evaluate :: "nat \<Rightarrow> nat \<Rightarrow> state \<Rightarrow> state \<times> jsval res"
  and reactiveSetter :: "nat \<Rightarrow> nat \<Rightarrow> string \<Rightarrow> jsval \<Rightarrow> state \<Rightarrow> state \<times> jsval res"
  and callHook :: "nat \<Rightarrow> nat \<Rightarrow> string \<Rightarrow> state \<Rightarrow> state \<times> jsval res"
  and invokeHandlers :: "nat \<Rightarrow> nat \<Rightarrow> string \<Rightarrow> prog list \<Rightarrow> state \<Rightarrow> state \<times> jsval res"
  and getData :: "nat \<Rightarrow> nat \<Rightarrow> prog \<Rightarrow> state \<Rightarrow> state \<times> jsval res"
where
  "exec 0 p s = (s, OutOfFuel)"
| "exec (Suc n) (Return v) s = (s, Ok v)"
| "exec (Suc n) (Throw e) s = (s, Exn e)"
| "exec (Suc n) (Read r k f) s =
     (case get_prop n r k s of
        None \<Rightarrow> (s, OutOfFuel)
      | Some (s1, v) \<Rightarrow> exec n (f v) s1)"
| "exec (Suc n) (Write r k v p) s =
     andThen
       (case getprop s r k of
          Some q \<Rightarrow> if reactive q then reactiveSetter n r k v s
                    else (plain_write r k v s, Ok VUndef)
        | None \<Rightarrow> (plain_write r k v s, Ok VUndef))
       (\<lambda>s1 _. exec n p s1)"
| "exec (Suc n) (ReadComputed w f) s =
     andThen (evaluate n w (watcher_depend w s)) (\<lambda>s1 v. exec n (f v) s1)"
| "exec (Suc n) (CallHook v h p) s =
     andThen (callHook n v h s) (\<lambda>s1 _. exec n p s1)"
| "exec (Suc n) (GetData v d f) s =
     andThen (getData n v d s) (\<lambda>s1 x. exec n (f x) s1)"
| "exec (Suc n) (Teardown w p) s = exec n p (teardown w s)"
| "get 0 w s = (s, OutOfFuel)"
| "get (Suc n) w s =
     (let s1 = emit (GetterCall w) (pushTarget (Some w) s)
      in case exec n (getter (watchers s1 w)) s1 of
           (s2, OutOfFuel) \<Rightarrow> (s2, OutOfFuel)
         | (s2, r) \<Rightarrow> get_finally n w r s2)"
| "getAndInvoke 0 w own s = (s, OutOfFuel)"
| "getAndInvoke (Suc n) w own s =
     andThen (get n w s)
       (\<lambda>s1 value.
          let W = watchers s1 w
          in if \<not> strict_eq value (wvalue W) \<or> isObject value \<or> deep W then
               let oldValue = wvalue W;
                   s2 = upd_watcher w (\<lambda>W. W\<lparr>wvalue := value, dirty := False\<rparr>) s1;
                   r = (if own then exec n (cb W value oldValue) (emit (CbCall w value oldValue) s2)
                        else (case wdep W of Some d \<Rightarrow> notify n d s2
                                           | None \<Rightarrow> (s2, Ok VUndef)))
               in case r of
                    (s3, Exn e) \<Rightarrow>
                      if user W
                      then (handleError e (vm W)
                              (''callback for watcher '' @ quoted (expression W)) s3, Ok VUndef)
                      else (s3, Exn e)
                  | (s3, OutOfFuel) \<Rightarrow> (s3, OutOfFuel)
                  | (s3, Ok _) \<Rightarrow> (s3, Ok VUndef)
             else (s1, Ok VUndef))"
| "run 0 w s = (s, OutOfFuel)"
| "run (Suc n) w s =
     (let s1 = emit (RunCall w) s
      in if active (watchers s1 w) then getAndInvoke n w True s1 else (s1, Ok VUndef))"
| "update 0 w s = (s, OutOfFuel)"
| "update (Suc n) w s =
     (if computed (watchers s w) then
        (case wdep (watchers s w) of
           Some d \<Rightarrow>
             if subs s d = [] then (upd_watcher w (\<lambda>W. W\<lparr>dirty := True\<rparr>) s, Ok VUndef)
             else getAndInvoke n w False s
         | None \<Rightarrow> (s, Exn ''TypeError''))
      else if sync (watchers s w) then run n w s
      else (queueWatcher w s, Ok VUndef))"
| "notify 0 d s = (s, OutOfFuel)"
| "notify (Suc n) d s = notify_loop n (subs s d) (emit (Notify d) s)"
| "notify_loop 0 ws s = (s, OutOfFuel)"
| "notify_loop (Suc n) [] s = (s, Ok VUndef)"
| "notify_loop (Suc n) (w # ws) s = andThen (update n w s) (\<lambda>s1 _. notify_loop n ws s1)"
| "evaluate 0 w s = (s, OutOfFuel)"
| "evaluate (Suc n) w s =
     (if dirty (watchers s w) then
        andThen (get n w s)
          (\<lambda>s1 v. (upd_watcher w (\<lambda>W. W\<lparr>wvalue := v, dirty := False\<rparr>) s1, Ok v))
      else (s, Ok (wvalue (watchers s w))))"
| "reactiveSetter 0 r k newVal s = (s, OutOfFuel)"
| "reactiveSetter (Suc n) r k newVal s =
     (case getprop s r k of
        None \<Rightarrow> (s, Ok VUndef)
      | Some p \<Rightarrow>
          let value = current_value p
          in if same_value newVal value then (s, Ok VUndef)
             else
               let s1 = (if dev s \<and> customSetter p then emit (Warn ''customSetter'') s else s);
                   s2 = upd_prop r k (\<lambda>p. if pset p then p\<lparr>backing := newVal\<rparr>
                                          else p\<lparr>pval := newVal\<rparr>) s1
               in case (if shallow p then Some (s2, None) else observe n newVal False s2) of
                    None \<Rightarrow> (s2, OutOfFuel)
                  | Some (s3, c) \<Rightarrow> notify n (pdep p) (upd_prop r k (\<lambda>p. p\<lparr>childOb := c\<rparr>) s3))"
| "callHook 0 v h s = (s, OutOfFuel)"
| "callHook (Suc n) v h s =
     (let s1 = pushTarget None (emit (HookCall v h) s)
      in andThen (invokeHandlers n v (h @ '' hook'') (hooks (vms s1 v) h) s1)
           (\<lambda>s2 _.
              andThen
                (if hasHookEvent (vms s2 v)
                 then invokeHandlers n v (''event handler for '' @ quoted (''hook:'' @ h))
                        (hookListeners (vms s2 v) h) s2
                 else (s2, Ok VUndef))
                (\<lambda>s3 _. (popTarget s3, Ok VUndef))))"
| "invokeHandlers 0 v info hs s = (s, OutOfFuel)"
| "invokeHandlers (Suc n) v info [] s = (s, Ok VUndef)"
| "invokeHandlers (Suc n) v info (h # hs) s =
     (case exec n h s of
        (s1, Exn e) \<Rightarrow> invokeHandlers n v info hs (handleError e v info s1)
      | (s1, OutOfFuel) \<Rightarrow> (s1, OutOfFuel)
      | (s1, Ok _) \<Rightarrow> invokeHandlers n v info hs s1)"
| "getData 0 v d s = (s, OutOfFuel)"
| "getData (Suc n) v d s =
     (case exec n d (pushTarget None s) of
        (s1, Ok x) \<Rightarrow> (popTarget s1, Ok x)
      | (s1, Exn e) \<Rightarrow>
          (let s2 = handleError e v ''data()'' s1;
               a = next_ref s2
           in (popTarget (s2\<lparr>next_ref := a + 1, heap := (heap s2)(a := empty_obj)\<rparr>), Ok (VRef a)))
      | (s1, OutOfFuel) \<Rightarrow> (s1, OutOfFuel))"
  by pat_completeness auto
termination
  by (relation "measure (case_sum (case_sum (case_sum fst (case_sum fst fst)) (case_sum fst (case_sum fst fst))) (case_sum (case_sum fst (case_sum fst fst)) (case_sum fst (case_sum fst fst))))") simp_all

text \<open>The getter that \<open>createComputedGetter\<close> installs for a computed property.\<close>

definition computedGetter :: "nat \<Rightarrow> nat \<Rightarrow> state \<Rightarrow> state \<times> jsval res" where
  "computedGetter n w s = evaluate n w (watcher_depend w s)"

text \<open>
  The \<open>Watcher\<close> constructor. The getter is given as code together with its source text
  (\<open>expOrFn.toString()\<close>); the new watcher's id is the new value of \<open>watcher_uid\<close>.
\<close>

record woptions =
  o_deep :: bool
  o_user :: bool
  o_computed :: bool
  o_sync :: bool
  o_before :: "prog option"

definition newWatcher ::
  "nat \<Rightarrow> nat \<Rightarrow> string \<Rightarrow> prog \<Rightarrow> (jsval \<Rightarrow> jsval \<Rightarrow> prog) \<Rightarrow> woptions option \<Rightarrow> bool \<Rightarrow> state
     \<Rightarrow> state \<times> jsval res" where
  "newWatcher n v expr g c options isRenderWatcher s =
     (let w = watcher_uid s + 1;
          s1 = s\<lparr>vms := (vms s)(v := (vms s v)
                       \<lparr>vwatcher := (if isRenderWatcher then Some w else vwatcher (vms s v)),
                        vwatchers := vwatchers (vms s v) @ [w]\<rparr>),
                 watcher_uid := w\<rparr>;
          W = \<lparr>vm = v, expression = (if dev s then expr else []), cb = c,
               deep = (case options of Some opt \<Rightarrow> o_deep opt | None \<Rightarrow> False),
               user = (case options of Some opt \<Rightarrow> o_user opt | None \<Rightarrow> False),
               computed = (case options of Some opt \<Rightarrow> o_computed opt | None \<Rightarrow> False),
               sync = (case options of Some opt \<Rightarrow> o_sync opt | None \<Rightarrow> False),
               dirty = (case options of Some opt \<Rightarrow> o_computed opt | None \<Rightarrow> False),
               active = True, wdep = None, deps = [], newDeps = [], depIds = {}, newDepIds = {},
               before = (case options of Some opt \<Rightarrow> o_before opt | None \<Rightarrow> None),
               getter = g, wvalue = VUndef\<rparr>;
          s2 = s1\<lparr>watchers := (watchers s1)(w := W)\<rparr>
      in if computed W
         then (s2\<lparr>dep_uid := dep_uid s2 + 1,
                   watchers := (watchers s2)(w := W\<lparr>wdep := Some (dep_uid s2)\<rparr>)\<rparr>, Ok VUndef)
         else andThen (get n w s2)
                (\<lambda>s3 x. (upd_watcher w (\<lambda>W. W\<lparr>wvalue := x\<rparr>) s3, Ok VUndef)))"

section \<open>Scheduler: flush (observer/scheduler.js)\<close>

text \<open>
  The \<open>for\<close> loop of \<open>flushSchedulerQueue\<close>: it reads \<open>queue.length\<close> and
  \<open>queue[index]\<close> afresh in every round.
\<close>

function (sequential) flush_loop :: "nat \<Rightarrow> state \<Rightarrow> state \<times> jsval res" where
  "flush_loop 0 s = (s, OutOfFuel)"
| "flush_loop (Suc n) s =
     (if index s < length (queue s) then
        let w = queue s ! index s
        in andThen (case before (watchers s w) of Some b \<Rightarrow> exec n b s | None \<Rightarrow> (s, Ok VUndef))
             (\<lambda>s1 _.
                andThen (run n w (s1\<lparr>has := (has s1)(w := None)\<rparr>))
                  (\<lambda>s2 _.
                     if dev s2 \<and> has s2 w \<noteq> None then
                       let s3 = s2\<lparr>circular := (circular s2)(w := circular s2 w + 1)\<rparr>
                       in if circular s3 w > MAX_UPDATE_COUNT
                          then (emit (Warn (''You may have an infinite update loop '' @
                                  (if user (watchers s3 w)
                                   then ''in watcher with expression '' @
                                        quoted (expression (watchers s3 w))
                                   else ''in a component render function.''))) s3, Ok VUndef)
                          else flush_loop n (s3\<lparr>index := index s3 + 1\<rparr>)
                     else flush_loop n (s2\<lparr>index := index s2 + 1\<rparr>)))
      else (s, Ok VUndef))"
  by pat_completeness auto
termination
  by (relation "measure fst") simp_all

text \<open>\<open>callUpdatedHooks\<close>, over the flushed queue from its last element.\<close>

function (sequential) updated_loop :: "nat \<Rightarrow> nat list \<Rightarrow> state \<Rightarrow> state \<times> jsval res" where
  "updated_loop 0 ws s = (s, OutOfFuel)"
| "updated_loop (Suc n) [] s = (s, Ok VUndef)"
| "updated_loop (Suc n) (w # ws) s =
     (let v = vm (watchers s w)
      in if vwatcher (vms s v) = Some w \<and> isMounted (vms s v)
         then andThen (callHook n v ''updated'' s) (\<lambda>s1 _. updated_loop n ws s1)
         else updated_loop n ws s)"
  by pat_completeness auto
termination
  by (relation "measure fst") simp_all

definition callUpdatedHooks :: "nat \<Rightarrow> nat list \<Rightarrow> state \<Rightarrow> state \<times> jsval res" where
  "callUpdatedHooks n q s = updated_loop n (rev q) s"

text \<open>
  \<open>flushSchedulerQueue\<close>: sort by id, run the loop, keep a copy of the queue, reset the
  scheduler, call the \<open>updated\<close> hooks.
\<close>

definition flushSchedulerQueue :: "nat \<Rightarrow> state \<Rightarrow> state \<times> jsval res" where
  "flushSchedulerQueue n s =
     (let s1 = s\<lparr>flushing := True\<rparr>;
          s2 = s1\<lparr>queue := sort (queue s1)\<rparr>
      in andThen (flush_loop n (s2\<lparr>index := 0\<rparr>))
           (\<lambda>s3 _. let updatedQueue = queue s3
                    in callUpdatedHooks n updatedQueue (resetSchedulerState s3)))"

section \<open>Notions used in the statements\<close>

text \<open>
  A getter that only reads properties (and then returns or throws), and what such a getter
  returns on a given heap.
\<close>

primrec reads_only :: "prog \<Rightarrow> bool" where
  "reads_only (Return v) = True"
| "reads_only (Throw e) = True"
| "reads_only (Read r k f) = (\<forall>v. reads_only (f v))"
| "reads_only (Write r k v p) = False"
| "reads_only (ReadComputed w f) = False"
| "reads_only (CallHook v h p) = False"
| "reads_only (GetData v d f) = False"
| "reads_only (Teardown w p) = False"

definition prop_value :: "(nat \<Rightarrow> obj) \<Rightarrow> nat \<Rightarrow> string \<Rightarrow> jsval" where
  "prop_value h r k =
     (case map_of (props (h r)) k of
        None \<Rightarrow> VUndef
      | Some p \<Rightarrow> if reactive p then current_value p else raw_value p)"

primrec pure_result :: "prog \<Rightarrow> (nat \<Rightarrow> obj) \<Rightarrow> jsval res" where
  "pure_result (Return v) h = Ok v"
| "pure_result (Throw e) h = Exn e"
| "pure_result (Read r k f) h = pure_result (f (prop_value h r k)) h"
| "pure_result (Write r k v p) h = OutOfFuel"
| "pure_result (ReadComputed w f) h = OutOfFuel"
| "pure_result (CallHook v g p) h = OutOfFuel"
| "pure_result (GetData v d f) h = OutOfFuel"
| "pure_result (Teardown w p) h = OutOfFuel"


text \<open>The Deps on which \<open>depend()\<close> was called for watcher \<open>w\<close>, among some events.\<close>

definition deps_read :: "nat \<Rightarrow> event list \<Rightarrow> nat set" where
  "deps_read w es = {d. Depend w d \<in> set es}"

text \<open>How often the getter of watcher \<open>w\<close> was called, among some events.\<close>

definition getter_calls :: "nat \<Rightarrow> event list \<Rightarrow> nat" where
  "getter_calls w es = count_list es (GetterCall w)"

text \<open>
  How often the callback of watcher \<open>w\<close> was invoked, among some events; and what holds
  between a state in which \<open>w\<close> is torn down and a later state if \<open>w\<close> is still torn down
  and its callback has not been invoked in between.
\<close>

primrec is_cb :: "nat \<Rightarrow> event \<Rightarrow> bool" where
  "is_cb w (HandleError e v i) = False"
| "is_cb w (Warn m) = False"
| "is_cb w NextTick = False"
| "is_cb w (Depend x d) = False"
| "is_cb w (GetterCall x) = False"
| "is_cb w (CbCall x v old) = (x = w)"
| "is_cb w (Notify d) = False"
| "is_cb w (RunCall x) = False"
| "is_cb w (HookCall v h) = False"

definition cb_calls :: "nat \<Rightarrow> event list \<Rightarrow> nat" where
  "cb_calls w es = length (filter (is_cb w) es)"

definition silent :: "nat \<Rightarrow> state \<Rightarrow> state \<Rightarrow> bool" where
  "silent w s s' \<longleftrightarrow>
     \<not> active (watchers s' w) \<and> cb_calls w (events s') = cb_calls w (events s)"

text \<open>The Deps that watcher \<open>w\<close> read between a state and a later state.\<close>

definition reads_during :: "nat \<Rightarrow> state \<Rightarrow> state \<Rightarrow> nat set" where
  "reads_during w s s' = deps_read w (drop (length (events s)) (events s'))"

section \<open>Sequences of subscription operations\<close>

text \<open>
  The operations through which the engine itself changes subscriber lists: \<open>dep.depend()\<close>
  under the current target, \<open>pushTarget\<close>/\<open>popTarget\<close>, \<open>dep.removeSub(w)\<close>,
  \<open>w.cleanupDeps()\<close> and \<open>w.teardown()\<close>. The engine calls \<open>addSub\<close> only from
  \<open>addDep\<close>.
\<close>

datatype sub_op =
    Track nat
  | PushT "nat option"
  | PopT
  | Unsubscribe nat nat
  | Cleanup nat
  | TeardownW nat

fun apply_op :: "sub_op \<Rightarrow> state \<Rightarrow> state" where
  "apply_op (Track d) s = depend d s"
| "apply_op (PushT t) s = pushTarget t s"
| "apply_op PopT s = popTarget s"
| "apply_op (Unsubscribe d w) s = removeSub d w s"
| "apply_op (Cleanup w) s = cleanupDeps w s"
| "apply_op (TeardownW w) s = teardown w s"

text \<open>
  The bookkeeping that keeps subscriptions unique: a watcher is in a subscriber list at most
  once, and only in lists of Deps whose id it has recorded in \<open>depIds\<close> or \<open>newDepIds\<close>;
  every recorded id has its Dep in the matching array.
\<close>

definition sub_inv :: "state \<Rightarrow> bool" where
  "sub_inv s \<longleftrightarrow>
     (\<forall>w. depIds (watchers s w) \<subseteq> set (deps (watchers s w)) \<and>
          newDepIds (watchers s w) \<subseteq> set (newDeps (watchers s w)) \<and>
          (\<forall>d. count_list (subs s d) w \<le> 1 \<and>
               (w \<in> set (subs s d) \<longrightarrow> d \<in> depIds (watchers s w) \<union> newDepIds (watchers s w))))"

section \<open>Auxiliary notions for the proofs\<close>

text \<open>
  A trace of tracking steps: \<open>depend()\<close> calls and recorded events. \<open>getter_outcome\<close> is
  what \<open>Watcher.get\<close> makes of the outcome of its getter.
\<close>

primrec tstep :: "nat + event \<Rightarrow> state \<Rightarrow> state" where
  "tstep (Inl d) s = depend d s"
| "tstep (Inr e) s = emit e s"

primrec lefts :: "('a + 'b) list \<Rightarrow> 'a list" where
  "lefts [] = []"
| "lefts (x # xs) = (case x of Inl a \<Rightarrow> a # lefts xs | Inr _ \<Rightarrow> lefts xs)"

primrec tevent :: "nat \<Rightarrow> nat + event \<Rightarrow> event" where
  "tevent w (Inl d) = Depend w d"
| "tevent w (Inr e) = e"

definition getter_outcome :: "bool \<Rightarrow> jsval res \<Rightarrow> jsval res" where
  "getter_outcome u r = (case r of Exn e \<Rightarrow> if u then Ok VUndef else Exn e | Ok v \<Rightarrow> Ok v
                         | OutOfFuel \<Rightarrow> OutOfFuel)"

text \<open>A later state that differs in the heap and the Dep counter only.\<close>

definition heap_only :: "state \<Rightarrow> state \<Rightarrow> bool" where
  "heap_only s s' \<longleftrightarrow> (\<exists>h u. s' = s\<lparr>heap := h, dep_uid := u\<rparr>)"

section \<open>Example states\<close>

text \<open>
  A reactive property holding \<open>v\<close> whose Dep has id \<open>d\<close>, and an observed record
  \<open>{flag: true, a: 1, b: 7}\<close> at address 0 (its Observer's Dep has id 0, the properties'
  Deps have ids 1, 2, 3), as \<open>observe\<close> leaves it.
\<close>

definition reactive_prop :: "nat \<Rightarrow> jsval \<Rightarrow> property" where
  "reactive_prop d v = absent_property\<lparr>reactive := True, pval := v, pdep := d\<rparr>"

definition ex_record :: obj where
  "ex_record =
     empty_obj\<lparr>ob := Some \<lparr>odep = 0, vmCount = 1\<rparr>,
               props := [(''flag'', reactive_prop 1 (VBool True)), (''a'', reactive_prop 2 (VNum 1)),
                         (''b'', reactive_prop 3 (VNum 7))]\<rparr>"

definition ex_state :: state where
  "ex_state = init\<lparr>heap := (heap init)(0 := ex_record), dep_uid := 4, next_ref := 1\<rparr>"



text \<open>A user watcher with cached value 1 whose getter throws.\<close>

definition ex_throwing :: state where
  "ex_throwing =
     ex_state\<lparr>watcher_uid := 1,
               watchers := (watchers ex_state)(1 := empty_watcher\<lparr>active := True, user := True,
                  expression := ''boom'', getter := Throw ''oops'', wvalue := VNum 1\<rparr>)\<rparr>"

text \<open>
  The computed property \<open>double = a * 2\<close>: watcher 2 is its lazy watcher, with own Dep 9 and
  no subscriber. In \<open>ex_lazy\<close> it has the value 2 cached from \<open>a = 1\<close>, and \<open>a\<close> is 6 now.
\<close>

definition ex_double :: prog where
  "ex_double = Read 0 ''a'' (\<lambda>v. case v of VNum i \<Rightarrow> Return (VNum (i * 2)) | _ \<Rightarrow> Return VNaN)"

definition ex_lazy :: state where
  "ex_lazy =
     ex_state\<lparr>heap := (heap ex_state)(0 := ex_record\<lparr>props :=
                  [(''flag'', reactive_prop 1 (VBool True)), (''a'', reactive_prop 2 (VNum 6)),
                   (''b'', reactive_prop 3 (VNum 7))]\<rparr>),
               subs := (\<lambda>_. [])(2 := [2]),
               dep_uid := 10,
               watcher_uid := 2,
               watchers := (watchers ex_state)(2 := empty_watcher\<lparr>active := True, computed := True,
                  wdep := Some 9, getter := ex_double, deps := [2], depIds := {2},
                  wvalue := VNum 2\<rparr>)\<rparr>"

section \<open>Frame and tracking lemmas\<close>

lemma emit_frame [simp]:
  "dep_uid (emit e s) = dep_uid s"
  "subs (emit e s) = subs s"
  "target (emit e s) = target s"
  "targetStack (emit e s) = targetStack s"
  "watcher_uid (emit e s) = watcher_uid s"
  "watchers (emit e s) = watchers s"
  "shouldObserve (emit e s) = shouldObserve s"
  "heap (emit e s) = heap s"
  "next_ref (emit e s) = next_ref s"
  "vms (emit e s) = vms s"
  "queue (emit e s) = queue s"
  "has (emit e s) = has s"
  "circular (emit e s) = circular s"
  "waiting (emit e s) = waiting s"
  "flushing (emit e s) = flushing s"
  "index (emit e s) = index s"
  "dev (emit e s) = dev s"
  "ssr (emit e s) = ssr s"
  by (simp_all add: emit_def)

lemma handleError_frame [simp]:
  "dep_uid (handleError e v i s) = dep_uid s"
  "subs (handleError e v i s) = subs s"
  "target (handleError e v i s) = target s"
  "targetStack (handleError e v i s) = targetStack s"
  "watcher_uid (handleError e v i s) = watcher_uid s"
  "watchers (handleError e v i s) = watchers s"
  "shouldObserve (handleError e v i s) = shouldObserve s"
  "heap (handleError e v i s) = heap s"
  "next_ref (handleError e v i s) = next_ref s"
  "vms (handleError e v i s) = vms s"
  "queue (handleError e v i s) = queue s"
  "has (handleError e v i s) = has s"
  "circular (handleError e v i s) = circular s"
  "waiting (handleError e v i s) = waiting s"
  "flushing (handleError e v i s) = flushing s"
  "index (handleError e v i s) = index s"
  "dev (handleError e v i s) = dev s"
  "ssr (handleError e v i s) = ssr s"
  by (simp_all add: handleError_def emit_def)

lemma pushTarget_frame [simp]:
  "dep_uid (pushTarget t s) = dep_uid s"
  "subs (pushTarget t s) = subs s"
  "watcher_uid (pushTarget t s) = watcher_uid s"
  "watchers (pushTarget t s) = watchers s"
  "shouldObserve (pushTarget t s) = shouldObserve s"
  "heap (pushTarget t s) = heap s"
  "next_ref (pushTarget t s) = next_ref s"
  "vms (pushTarget t s) = vms s"
  "queue (pushTarget t s) = queue s"
  "has (pushTarget t s) = has s"
  "circular (pushTarget t s) = circular s"
  "waiting (pushTarget t s) = waiting s"
  "flushing (pushTarget t s) = flushing s"
  "index (pushTarget t s) = index s"
  "dev (pushTarget t s) = dev s"
  "ssr (pushTarget t s) = ssr s"
  "events (pushTarget t s) = events s"
  by (simp_all add: pushTarget_def)

lemma popTarget_frame [simp]:
  "dep_uid (popTarget s) = dep_uid s"
  "subs (popTarget s) = subs s"
  "watcher_uid (popTarget s) = watcher_uid s"
  "watchers (popTarget s) = watchers s"
  "shouldObserve (popTarget s) = shouldObserve s"
  "heap (popTarget s) = heap s"
  "next_ref (popTarget s) = next_ref s"
  "vms (popTarget s) = vms s"
  "queue (popTarget s) = queue s"
  "has (popTarget s) = has s"
  "circular (popTarget s) = circular s"
  "waiting (popTarget s) = waiting s"
  "flushing (popTarget s) = flushing s"
  "index (popTarget s) = index s"
  "dev (popTarget s) = dev s"
  "ssr (popTarget s) = ssr s"
  "events (popTarget s) = events s"
  by (simp_all add: popTarget_def)

lemma addSub_frame [simp]:
  "dep_uid (addSub d w s) = dep_uid s"
  "target (addSub d w s) = target s"
  "targetStack (addSub d w s) = targetStack s"
  "watcher_uid (addSub d w s) = watcher_uid s"
  "watchers (addSub d w s) = watchers s"
  "shouldObserve (addSub d w s) = shouldObserve s"
  "heap (addSub d w s) = heap s"
  "next_ref (addSub d w s) = next_ref s"
  "vms (addSub d w s) = vms s"
  "queue (addSub d w s) = queue s"
  "has (addSub d w s) = has s"
  "circular (addSub d w s) = circular s"
  "waiting (addSub d w s) = waiting s"
  "flushing (addSub d w s) = flushing s"
  "index (addSub d w s) = index s"
  "dev (addSub d w s) = dev s"
  "ssr (addSub d w s) = ssr s"
  "events (addSub d w s) = events s"
  by (simp_all add: addSub_def)

lemma removeSub_frame [simp]:
  "dep_uid (removeSub d w s) = dep_uid s"
  "target (removeSub d w s) = target s"
  "targetStack (removeSub d w s) = targetStack s"
  "watcher_uid (removeSub d w s) = watcher_uid s"
  "watchers (removeSub d w s) = watchers s"
  "shouldObserve (removeSub d w s) = shouldObserve s"
  "heap (removeSub d w s) = heap s"
  "next_ref (removeSub d w s) = next_ref s"
  "vms (removeSub d w s) = vms s"
  "queue (removeSub d w s) = queue s"
  "has (removeSub d w s) = has s"
  "circular (removeSub d w s) = circular s"
  "waiting (removeSub d w s) = waiting s"
  "flushing (removeSub d w s) = flushing s"
  "index (removeSub d w s) = index s"
  "dev (removeSub d w s) = dev s"
  "ssr (removeSub d w s) = ssr s"
  "events (removeSub d w s) = events s"
  by (simp_all add: removeSub_def)

lemma upd_watcher_frame [simp]:
  "dep_uid (upd_watcher w f s) = dep_uid s"
  "subs (upd_watcher w f s) = subs s"
  "target (upd_watcher w f s) = target s"
  "targetStack (upd_watcher w f s) = targetStack s"
  "watcher_uid (upd_watcher w f s) = watcher_uid s"
  "shouldObserve (upd_watcher w f s) = shouldObserve s"
  "heap (upd_watcher w f s) = heap s"
  "next_ref (upd_watcher w f s) = next_ref s"
  "vms (upd_watcher w f s) = vms s"
  "queue (upd_watcher w f s) = queue s"
  "has (upd_watcher w f s) = has s"
  "circular (upd_watcher w f s) = circular s"
  "waiting (upd_watcher w f s) = waiting s"
  "flushing (upd_watcher w f s) = flushing s"
  "index (upd_watcher w f s) = index s"
  "dev (upd_watcher w f s) = dev s"
  "ssr (upd_watcher w f s) = ssr s"
  "events (upd_watcher w f s) = events s"
  by (simp_all add: upd_watcher_def)

lemma addDep_frame [simp]:
  "dep_uid (addDep w d s) = dep_uid s"
  "target (addDep w d s) = target s"
  "targetStack (addDep w d s) = targetStack s"
  "watcher_uid (addDep w d s) = watcher_uid s"
  "shouldObserve (addDep w d s) = shouldObserve s"
  "heap (addDep w d s) = heap s"
  "next_ref (addDep w d s) = next_ref s"
  "vms (addDep w d s) = vms s"
  "queue (addDep w d s) = queue s"
  "has (addDep w d s) = has s"
  "circular (addDep w d s) = circular s"
  "waiting (addDep w d s) = waiting s"
  "flushing (addDep w d s) = flushing s"
  "index (addDep w d s) = index s"
  "dev (addDep w d s) = dev s"
  "ssr (addDep w d s) = ssr s"
  "events (addDep w d s) = events s"
  by (simp_all add: addDep_def addSub_def upd_watcher_def Let_def)

lemma depend_frame [simp]:
  "dep_uid (depend d s) = dep_uid s"
  "target (depend d s) = target s"
  "targetStack (depend d s) = targetStack s"
  "watcher_uid (depend d s) = watcher_uid s"
  "shouldObserve (depend d s) = shouldObserve s"
  "heap (depend d s) = heap s"
  "next_ref (depend d s) = next_ref s"
  "vms (depend d s) = vms s"
  "queue (depend d s) = queue s"
  "has (depend d s) = has s"
  "circular (depend d s) = circular s"
  "waiting (depend d s) = waiting s"
  "flushing (depend d s) = flushing s"
  "index (depend d s) = index s"
  "dev (depend d s) = dev s"
  "ssr (depend d s) = ssr s"
  by (simp_all add: depend_def addDep_def addSub_def upd_watcher_def emit_def Let_def split: option.splits)

lemma setprop_frame [simp]:
  "dep_uid (setprop r k p s) = dep_uid s"
  "subs (setprop r k p s) = subs s"
  "target (setprop r k p s) = target s"
  "targetStack (setprop r k p s) = targetStack s"
  "watcher_uid (setprop r k p s) = watcher_uid s"
  "watchers (setprop r k p s) = watchers s"
  "shouldObserve (setprop r k p s) = shouldObserve s"
  "next_ref (setprop r k p s) = next_ref s"
  "vms (setprop r k p s) = vms s"
  "queue (setprop r k p s) = queue s"
  "has (setprop r k p s) = has s"
  "circular (setprop r k p s) = circular s"
  "waiting (setprop r k p s) = waiting s"
  "flushing (setprop r k p s) = flushing s"
  "index (setprop r k p s) = index s"
  "dev (setprop r k p s) = dev s"
  "ssr (setprop r k p s) = ssr s"
  "events (setprop r k p s) = events s"
  by (simp_all add: setprop_def)

lemma upd_prop_frame [simp]:
  "dep_uid (upd_prop r k f s) = dep_uid s"
  "subs (upd_prop r k f s) = subs s"
  "target (upd_prop r k f s) = target s"
  "targetStack (upd_prop r k f s) = targetStack s"
  "watcher_uid (upd_prop r k f s) = watcher_uid s"
  "watchers (upd_prop r k f s) = watchers s"
  "shouldObserve (upd_prop r k f s) = shouldObserve s"
  "next_ref (upd_prop r k f s) = next_ref s"
  "vms (upd_prop r k f s) = vms s"
  "queue (upd_prop r k f s) = queue s"
  "has (upd_prop r k f s) = has s"
  "circular (upd_prop r k f s) = circular s"
  "waiting (upd_prop r k f s) = waiting s"
  "flushing (upd_prop r k f s) = flushing s"
  "index (upd_prop r k f s) = index s"
  "dev (upd_prop r k f s) = dev s"
  "ssr (upd_prop r k f s) = ssr s"
  "events (upd_prop r k f s) = events s"
  by (simp_all add: upd_prop_def setprop_def split: option.splits)

lemma plain_write_frame [simp]:
  "dep_uid (plain_write r k v s) = dep_uid s"
  "subs (plain_write r k v s) = subs s"
  "target (plain_write r k v s) = target s"
  "targetStack (plain_write r k v s) = targetStack s"
  "watcher_uid (plain_write r k v s) = watcher_uid s"
  "watchers (plain_write r k v s) = watchers s"
  "shouldObserve (plain_write r k v s) = shouldObserve s"
  "next_ref (plain_write r k v s) = next_ref s"
  "vms (plain_write r k v s) = vms s"
  "queue (plain_write r k v s) = queue s"
  "has (plain_write r k v s) = has s"
  "circular (plain_write r k v s) = circular s"
  "waiting (plain_write r k v s) = waiting s"
  "flushing (plain_write r k v s) = flushing s"
  "index (plain_write r k v s) = index s"
  "dev (plain_write r k v s) = dev s"
  "ssr (plain_write r k v s) = ssr s"
  "events (plain_write r k v s) = events s"
  by (simp_all add: plain_write_def setprop_def split: option.splits)

lemma queueWatcher_frame [simp]:
  "dep_uid (queueWatcher w s) = dep_uid s"
  "subs (queueWatcher w s) = subs s"
  "target (queueWatcher w s) = target s"
  "targetStack (queueWatcher w s) = targetStack s"
  "watcher_uid (queueWatcher w s) = watcher_uid s"
  "watchers (queueWatcher w s) = watchers s"
  "shouldObserve (queueWatcher w s) = shouldObserve s"
  "heap (queueWatcher w s) = heap s"
  "next_ref (queueWatcher w s) = next_ref s"
  "vms (queueWatcher w s) = vms s"
  "circular (queueWatcher w s) = circular s"
  "flushing (queueWatcher w s) = flushing s"
  "index (queueWatcher w s) = index s"
  "dev (queueWatcher w s) = dev s"
  "ssr (queueWatcher w s) = ssr s"
  by (simp_all add: queueWatcher_def emit_def Let_def)

lemma resetSchedulerState_frame [simp]:
  "dep_uid (resetSchedulerState s) = dep_uid s"
  "subs (resetSchedulerState s) = subs s"
  "target (resetSchedulerState s) = target s"
  "targetStack (resetSchedulerState s) = targetStack s"
  "watcher_uid (resetSchedulerState s) = watcher_uid s"
  "watchers (resetSchedulerState s) = watchers s"
  "shouldObserve (resetSchedulerState s) = shouldObserve s"
  "heap (resetSchedulerState s) = heap s"
  "next_ref (resetSchedulerState s) = next_ref s"
  "vms (resetSchedulerState s) = vms s"
  "dev (resetSchedulerState s) = dev s"
  "ssr (resetSchedulerState s) = ssr s"
  "events (resetSchedulerState s) = events s"
  by (simp_all add: resetSchedulerState_def)


lemma fold_depend_frame [simp]:
  "dep_uid (fold depend ds s) = dep_uid s"
  "target (fold depend ds s) = target s"
  "targetStack (fold depend ds s) = targetStack s"
  "watcher_uid (fold depend ds s) = watcher_uid s"
  "shouldObserve (fold depend ds s) = shouldObserve s"
  "heap (fold depend ds s) = heap s"
  "next_ref (fold depend ds s) = next_ref s"
  "vms (fold depend ds s) = vms s"
  "queue (fold depend ds s) = queue s"
  "has (fold depend ds s) = has s"
  "circular (fold depend ds s) = circular s"
  "waiting (fold depend ds s) = waiting s"
  "flushing (fold depend ds s) = flushing s"
  "index (fold depend ds s) = index s"
  "dev (fold depend ds s) = dev s"
  "ssr (fold depend ds s) = ssr s"
  by (induction ds arbitrary: s; simp)+

lemma fold_depend_append: "fold depend (xs @ ys) s = fold depend ys (fold depend xs s)"
  by simp

text \<open>Everything that the engine does while a getter only reads is a sequence of \<open>depend()\<close>.\<close>

lemma tracks_refl: "\<exists>ds. s = fold depend ds s"
  by (rule exI [of _ "[]"]) simp

lemma tracks_depend: "\<exists>ds. depend d s = fold depend ds s"
  by (rule exI [of _ "[d]"]) simp

lemma tracks_trans:
  "\<exists>ds. s1 = fold depend ds s \<Longrightarrow> \<exists>ds. s2 = fold depend ds s1 \<Longrightarrow> \<exists>ds. s2 = fold depend ds s"
  by (metis fold_depend_append)

lemma dependArray_tracks:
  "dependArray n vs s = Some s' \<Longrightarrow> \<exists>ds. s' = fold depend ds s"
proof (induction n arbitrary: vs s s')
  case 0
  then show ?case by simp
next
  case (Suc n)
  show ?case
  proof (cases vs)
    case Nil
    then show ?thesis using Suc.prems by (simp add: tracks_refl)
  next
    case (Cons e es)
    show ?thesis
    proof (cases "\<exists>r. e = VRef r")
      case False
      then have "dependArray n es s = Some s'"
        using Suc.prems Cons by (cases e) auto
      then show ?thesis by (rule Suc.IH)
    next
      case True
      then obtain r where e: "e = VRef r" by blast
      define s1 where "s1 = (case ob (heap s r) of Some b \<Rightarrow> depend (odep b) s | None \<Rightarrow> s)"
      have t1: "\<exists>ds. s1 = fold depend ds s"
        unfolding s1_def by (cases "ob (heap s r)") (simp_all add: tracks_refl tracks_depend)
      have "(case (if okind (heap s1 r) = ArrayObject
                    then dependArray n (items (heap s1 r)) s1 else Some s1) of
             None \<Rightarrow> None | Some s2 \<Rightarrow> dependArray n es s2) = Some s'"
        using Suc.prems Cons e unfolding s1_def by (simp add: Let_def)
      then obtain s2 where s2: "(if okind (heap s1 r) = ArrayObject
                    then dependArray n (items (heap s1 r)) s1 else Some s1) = Some s2"
        and rest: "dependArray n es s2 = Some s'"
        by (cases "(if okind (heap s1 r) = ArrayObject
                    then dependArray n (items (heap s1 r)) s1 else Some s1)") auto
      have t2: "\<exists>ds. s2 = fold depend ds s1"
        using s2 Suc.IH [of "items (heap s1 r)" s1 s2]
        by (cases "okind (heap s1 r) = ArrayObject") (simp_all add: tracks_refl)
      have t3: "\<exists>ds. s' = fold depend ds s2"
        using rest by (rule Suc.IH)
      from t1 t2 t3 show ?thesis by (blast intro: tracks_trans)
    qed
  qed
qed

lemma reactiveGetter_tracks:
  assumes "reactiveGetter n p s = Some (s', v)"
  shows "(\<exists>ds. s' = fold depend ds s) \<and> v = current_value p"
proof (cases "target s \<noteq> None")
  case False
  then show ?thesis using assms by (simp add: reactiveGetter_def tracks_refl)
next
  case True
  define s1 where "s1 = depend (pdep p) s"
  have t1: "\<exists>ds. s1 = fold depend ds s" unfolding s1_def by (rule tracks_depend)
  show ?thesis
  proof (cases "childOb p")
    case None
    then show ?thesis using assms True t1 by (simp add: reactiveGetter_def Let_def s1_def)
  next
    case (Some c)
    define s2 where "s2 = (case ob (heap s1 c) of Some b \<Rightarrow> depend (odep b) s1 | None \<Rightarrow> s1)"
    have t2: "\<exists>ds. s2 = fold depend ds s1"
      unfolding s2_def by (cases "ob (heap s1 c)") (simp_all add: tracks_refl tracks_depend)
    have t12: "\<exists>ds. s2 = fold depend ds s" using t1 t2 by (rule tracks_trans)
    define val0 where "val0 = current_value p"
    have eq: "(case val0 of
                 VRef a \<Rightarrow>
                   if okind (heap s2 a) = ArrayObject
                   then (case dependArray n (items (heap s2 a)) s2 of
                           None \<Rightarrow> None
                         | Some s3 \<Rightarrow> Some (s3, val0))
                   else Some (s2, val0)
               | _ \<Rightarrow> Some (s2, val0)) = Some (s', v)"
      using assms True Some unfolding reactiveGetter_def s1_def s2_def val0_def
      by (simp add: Let_def)
    show ?thesis
    proof (cases "\<exists>a. val0 = VRef a \<and> okind (heap s2 a) = ArrayObject")
      case False
      then have "s' = s2 \<and> v = val0" using eq by (cases val0) (auto split: if_splits)
      then show ?thesis using t12 by (simp add: val0_def)
    next
      case True
      then obtain a where a: "val0 = VRef a" "okind (heap s2 a) = ArrayObject" by blast
      then have "dependArray n (items (heap s2 a)) s2 = Some s' \<and> v = val0"
        using eq by (auto split: option.splits)
      then show ?thesis
        using dependArray_tracks [of n "items (heap s2 a)" s2 s'] t12
        by (auto simp: val0_def intro: tracks_trans)
    qed
  qed
qed

lemma get_prop_tracks:
  assumes "get_prop n r k s = Some (s', v)"
  shows "(\<exists>ds. s' = fold depend ds s) \<and> v = prop_value (heap s) r k"
proof (cases "getprop s r k")
  case None
  then show ?thesis using assms by (simp add: get_prop_def prop_value_def getprop_def tracks_refl)
next
  case (Some p)
  show ?thesis
  proof (cases "reactive p")
    case True
    then show ?thesis
      using assms Some reactiveGetter_tracks [of n p s s' v]
      by (simp add: get_prop_def prop_value_def getprop_def)
  next
    case False
    then show ?thesis
      using assms Some by (simp add: get_prop_def prop_value_def getprop_def tracks_refl)
  qed
qed

lemma exec_reads_only:
  "reads_only p \<Longrightarrow> exec n p s = (s', r) \<Longrightarrow> r \<noteq> OutOfFuel
     \<Longrightarrow> (\<exists>ds. s' = fold depend ds s) \<and> r = pure_result p (heap s)"
proof (induction n arbitrary: p s)
  case 0
  then show ?case by simp
next
  case (Suc n)
  show ?case
  proof (cases p)
    case (Return v)
    then show ?thesis using Suc.prems by (auto simp: tracks_refl)
  next
    case (Throw e)
    then show ?thesis using Suc.prems by (auto simp: tracks_refl)
  next
    case (Read a k f)
    then obtain s1 v where g: "get_prop n a k s = Some (s1, v)" and e: "exec n (f v) s1 = (s', r)"
      using Suc.prems by (auto split: option.splits)
    have t1: "(\<exists>ds. s1 = fold depend ds s) \<and> v = prop_value (heap s) a k"
      using g by (rule get_prop_tracks)
    have ro: "reads_only (f v)" using Suc.prems(1) Read by simp
    have t2: "(\<exists>ds. s' = fold depend ds s1) \<and> r = pure_result (f v) (heap s1)"
      using Suc.IH [OF ro e Suc.prems(3)] .
    have "heap s1 = heap s" using t1 by auto
    then show ?thesis using t1 t2 Read by (auto intro: tracks_trans)
  qed (use Suc.prems in auto)
qed


lemma traverse_tracks_aux:
  "(\<forall>v seen s s' seen'. traverse_rec n v seen s = Some (s', seen') \<longrightarrow> (\<exists>ds. s' = fold depend ds s)) \<and>
   (\<forall>vs seen s s' seen'. traverse_items n vs seen s = Some (s', seen') \<longrightarrow> (\<exists>ds. s' = fold depend ds s)) \<and>
   (\<forall>r ks seen s s' seen'. traverse_keys n r ks seen s = Some (s', seen') \<longrightarrow> (\<exists>ds. s' = fold depend ds s))"
proof (induction n)
  case 0
  then show ?case by simp
next
  case (Suc n)
  note IHrec = Suc.IH [THEN conjunct1, rule_format]
  note IHitems = Suc.IH [THEN conjunct2, THEN conjunct1, rule_format]
  note IHkeys = Suc.IH [THEN conjunct2, THEN conjunct2, rule_format]
  have rec: "\<exists>ds. s' = fold depend ds s"
    if h: "traverse_rec (Suc n) v seen s = Some (s', seen')" for v seen s s' seen'
  proof (cases "\<exists>r. v = VRef r")
    case False
    then have "s' = s" using h by (cases v) auto
    then show ?thesis by (simp add: tracks_refl)
  next
    case True
    then obtain r where v: "v = VRef r" by blast
    show ?thesis
      using h v IHitems IHkeys
      by (auto simp: Let_def tracks_refl split: if_splits)
  qed
  have items: "\<exists>ds. s' = fold depend ds s"
    if h: "traverse_items (Suc n) vs seen s = Some (s', seen')" for vs seen s s' seen'
  proof (cases vs)
    case Nil
    then show ?thesis using h by (simp add: tracks_refl)
  next
    case (Cons v vs')
    then obtain s1 seen1 where a: "traverse_rec n v seen s = Some (s1, seen1)"
      and b: "traverse_items n vs' seen1 s1 = Some (s', seen')"
      using h by (auto split: option.splits)
    show ?thesis using IHrec [OF a] IHitems [OF b] by (rule tracks_trans)
  qed
  have keys: "\<exists>ds. s' = fold depend ds s"
    if h: "traverse_keys (Suc n) r ks seen s = Some (s', seen')" for r ks seen s s' seen'
  proof (cases ks)
    case Nil
    then show ?thesis using h by (simp add: tracks_refl)
  next
    case (Cons k ks')
    then obtain s1 v s2 seen1 where a: "get_prop n r k s = Some (s1, v)"
      and b: "traverse_rec n v seen s1 = Some (s2, seen1)"
      and c: "traverse_keys n r ks' seen1 s2 = Some (s', seen')"
      using h by (auto split: option.splits)
    have "\<exists>ds. s1 = fold depend ds s" using get_prop_tracks [OF a] by simp
    then show ?thesis using IHrec [OF b] IHkeys [OF c] by (blast intro: tracks_trans)
  qed
  show ?case using rec items keys by blast
qed

lemma traverse_tracks: "traverse n v s = Some s' \<Longrightarrow> \<exists>ds. s' = fold depend ds s"
  using traverse_tracks_aux [of n] by (auto simp: traverse_def)

text \<open>What a sequence of \<open>depend()\<close> calls does while watcher \<open>w\<close> is the target.\<close>

lemma depend_target: "target s = Some w \<Longrightarrow> depend d s = addDep w d (emit (Depend w d) s)"
  by (simp add: depend_def)

lemma depend_events: "target s = Some w \<Longrightarrow> events (depend d s) = events s @ [Depend w d]"
  by (simp add: depend_target addDep_def addSub_def upd_watcher_def emit_def Let_def)

lemma depend_other: "target s = Some w \<Longrightarrow> w' \<noteq> w \<Longrightarrow> watchers (depend d s) w' = watchers s w'"
  by (simp add: depend_target addDep_def addSub_def upd_watcher_def emit_def Let_def)

lemma depend_newDepIds:
  "target s = Some w \<Longrightarrow> newDepIds (watchers (depend d s) w) = insert d (newDepIds (watchers s w))"
  by (auto simp: depend_target addDep_def addSub_def upd_watcher_def emit_def Let_def)

lemma depend_newDeps:
  "target s = Some w \<Longrightarrow> newDepIds (watchers s w) = set (newDeps (watchers s w))
     \<Longrightarrow> newDepIds (watchers (depend d s) w) = set (newDeps (watchers (depend d s) w))"
  by (auto simp: depend_target addDep_def addSub_def upd_watcher_def emit_def Let_def)

lemma depend_rest:
  "target s = Some w \<Longrightarrow>
     (watchers (depend d s) w)\<lparr>newDeps := [], newDepIds := {}\<rparr> = (watchers s w)\<lparr>newDeps := [], newDepIds := {}\<rparr>"
  by (simp add: depend_target addDep_def addSub_def upd_watcher_def emit_def Let_def)

lemma depend_count:
  "target s = Some w \<Longrightarrow>
     count_list (subs (depend d s) d') w' =
       count_list (subs s d') w' +
         (if w' = w \<and> d' = d \<and> d \<notin> newDepIds (watchers s w) \<and> d \<notin> depIds (watchers s w) then 1 else 0)"
  by (simp add: depend_target addDep_def addSub_def upd_watcher_def emit_def Let_def)

lemma watcher_rest_fields:
  assumes "(W' :: watcher)\<lparr>newDeps := [], newDepIds := {}\<rparr> = W\<lparr>newDeps := [], newDepIds := {}\<rparr>"
  shows "depIds W' = depIds W" "deps W' = deps W" "user W' = user W" "deep W' = deep W"
    "vm W' = vm W" "expression W' = expression W" "getter W' = getter W" "active W' = active W"
    "computed W' = computed W" "sync W' = sync W" "dirty W' = dirty W" "wvalue W' = wvalue W"
    "wdep W' = wdep W" "cb W' = cb W" "before W' = before W"
proof -
  have f: "\<And>g. g (W'\<lparr>newDeps := [], newDepIds := {}\<rparr>) = g (W\<lparr>newDeps := [], newDepIds := {}\<rparr>)"
    using assms by simp
  show "depIds W' = depIds W" using f [of depIds] by simp
  show "deps W' = deps W" using f [of deps] by simp
  show "user W' = user W" using f [of user] by simp
  show "deep W' = deep W" using f [of deep] by simp
  show "vm W' = vm W" using f [of vm] by simp
  show "expression W' = expression W" using f [of expression] by simp
  show "getter W' = getter W" using f [of getter] by simp
  show "active W' = active W" using f [of active] by simp
  show "computed W' = computed W" using f [of computed] by simp
  show "sync W' = sync W" using f [of sync] by simp
  show "dirty W' = dirty W" using f [of dirty] by simp
  show "wvalue W' = wvalue W" using f [of wvalue] by simp
  show "wdep W' = wdep W" using f [of wdep] by simp
  show "cb W' = cb W" using f [of cb] by simp
  show "before W' = before W" using f [of before] by simp
qed


lemma lefts_append [simp]: "lefts (xs @ ys) = lefts xs @ lefts ys"
  by (induction xs) (auto split: sum.splits)

lemma lefts_map_Inl [simp]: "lefts (map Inl ds) = ds"
  by (induction ds) auto

lemma fold_depend_tstep: "fold depend ds s = fold tstep (map Inl ds) s"
  by (induction ds arbitrary: s) auto

lemma tstep_target [simp]: "target (tstep x s) = target s"
  by (cases x) auto

lemma fold_tstep_pres: "(\<And>x s. g (tstep x s) = g s) \<Longrightarrow> g (fold tstep xs s) = g s"
  by (induction xs arbitrary: s) simp_all

lemma tstep_frame [simp]:
  "dep_uid (tstep x s) = dep_uid s"
  "targetStack (tstep x s) = targetStack s"
  "watcher_uid (tstep x s) = watcher_uid s"
  "shouldObserve (tstep x s) = shouldObserve s"
  "heap (tstep x s) = heap s"
  "next_ref (tstep x s) = next_ref s"
  "vms (tstep x s) = vms s"
  "queue (tstep x s) = queue s"
  "has (tstep x s) = has s"
  "circular (tstep x s) = circular s"
  "waiting (tstep x s) = waiting s"
  "flushing (tstep x s) = flushing s"
  "index (tstep x s) = index s"
  "dev (tstep x s) = dev s"
  "ssr (tstep x s) = ssr s"
  by (cases x; simp)+

lemma fold_tstep_frame [simp]:
  "dep_uid (fold tstep xs s) = dep_uid s"
  "target (fold tstep xs s) = target s"
  "targetStack (fold tstep xs s) = targetStack s"
  "watcher_uid (fold tstep xs s) = watcher_uid s"
  "shouldObserve (fold tstep xs s) = shouldObserve s"
  "heap (fold tstep xs s) = heap s"
  "next_ref (fold tstep xs s) = next_ref s"
  "vms (fold tstep xs s) = vms s"
  "queue (fold tstep xs s) = queue s"
  "has (fold tstep xs s) = has s"
  "circular (fold tstep xs s) = circular s"
  "waiting (fold tstep xs s) = waiting s"
  "flushing (fold tstep xs s) = flushing s"
  "index (fold tstep xs s) = index s"
  "dev (fold tstep xs s) = dev s"
  "ssr (fold tstep xs s) = ssr s"
  by (rule fold_tstep_pres, simp)+

lemma tstep_events: "target s = Some w \<Longrightarrow> events (tstep x s) = events s @ [tevent w x]"
  by (cases x) (simp_all add: depend_events emit_def)

lemma tstep_other: "target s = Some w \<Longrightarrow> w' \<noteq> w \<Longrightarrow> watchers (tstep x s) w' = watchers s w'"
  by (cases x) (simp_all add: depend_other)

lemma tstep_newDepIds:
  "target s = Some w \<Longrightarrow> newDepIds (watchers (tstep x s) w) = newDepIds (watchers s w) \<union> set (lefts [x])"
  by (cases x) (simp_all add: depend_newDepIds)

lemma tstep_newDeps:
  "target s = Some w \<Longrightarrow> newDepIds (watchers s w) = set (newDeps (watchers s w))
     \<Longrightarrow> newDepIds (watchers (tstep x s) w) = set (newDeps (watchers (tstep x s) w))"
  by (cases x) (simp_all add: depend_newDeps)

lemma tstep_rest:
  "target s = Some w \<Longrightarrow>
     (watchers (tstep x s) w)\<lparr>newDeps := [], newDepIds := {}\<rparr> = (watchers s w)\<lparr>newDeps := [], newDepIds := {}\<rparr>"
  by (cases x) (simp_all add: depend_rest)

lemma tstep_count:
  "target s = Some w \<Longrightarrow>
     count_list (subs (tstep x s) d) w' =
       count_list (subs s d) w' +
         (if w' = w \<and> d \<in> set (lefts [x]) \<and> d \<notin> newDepIds (watchers s w) \<and> d \<notin> depIds (watchers s w)
          then 1 else 0)"
  by (cases x) (auto simp: depend_count)

lemma fold_tstep_events:
  "target s = Some w \<Longrightarrow> events (fold tstep xs s) = events s @ map (tevent w) xs"
  by (induction xs arbitrary: s) (simp_all add: tstep_events)

lemma fold_tstep_other:
  "target s = Some w \<Longrightarrow> w' \<noteq> w \<Longrightarrow> watchers (fold tstep xs s) w' = watchers s w'"
  by (induction xs arbitrary: s) (simp_all add: tstep_other)

lemma fold_tstep_newDepIds:
  "target s = Some w \<Longrightarrow> newDepIds (watchers (fold tstep xs s) w) = newDepIds (watchers s w) \<union> set (lefts xs)"
proof (induction xs arbitrary: s)
  case Nil
  then show ?case by simp
next
  case (Cons x xs)
  have t: "target (tstep x s) = Some w" using Cons.prems by simp
  show ?case using Cons.IH [OF t] tstep_newDepIds [OF Cons.prems, of x]
    by (cases x) auto
qed

lemma fold_tstep_newDeps:
  "target s = Some w \<Longrightarrow> newDepIds (watchers s w) = set (newDeps (watchers s w))
     \<Longrightarrow> newDepIds (watchers (fold tstep xs s) w) = set (newDeps (watchers (fold tstep xs s) w))"
  by (induction xs arbitrary: s) (simp_all add: tstep_newDeps)

lemma fold_tstep_rest:
  "target s = Some w \<Longrightarrow>
     (watchers (fold tstep xs s) w)\<lparr>newDeps := [], newDepIds := {}\<rparr> = (watchers s w)\<lparr>newDeps := [], newDepIds := {}\<rparr>"
  by (induction xs arbitrary: s) (simp_all add: tstep_rest)

lemma fold_tstep_count:
  "target s = Some w \<Longrightarrow>
     count_list (subs (fold tstep xs s) d) w' =
       count_list (subs s d) w' +
         (if w' = w \<and> d \<in> set (lefts xs) \<and> d \<notin> newDepIds (watchers s w) \<and> d \<notin> depIds (watchers s w)
          then 1 else 0)"
proof (induction xs arbitrary: s)
  case Nil
  then show ?case by simp
next
  case (Cons x xs)
  have t: "target (tstep x s) = Some w" using Cons.prems by simp
  have di: "depIds (watchers (tstep x s) w) = depIds (watchers s w)"
    using watcher_rest_fields(1) [OF tstep_rest [OF Cons.prems, of x]] .
  show ?case
    using Cons.IH [OF t] tstep_count [OF Cons.prems, of x d w'] tstep_newDepIds [OF Cons.prems, of x] di
    by (cases x) auto
qed

text \<open>\<open>cleanupDeps\<close>.\<close>

lemma cleanup_loop_frame [simp]:
  "dep_uid (cleanup_loop w ds s) = dep_uid s"
  "target (cleanup_loop w ds s) = target s"
  "targetStack (cleanup_loop w ds s) = targetStack s"
  "watcher_uid (cleanup_loop w ds s) = watcher_uid s"
  "shouldObserve (cleanup_loop w ds s) = shouldObserve s"
  "heap (cleanup_loop w ds s) = heap s"
  "next_ref (cleanup_loop w ds s) = next_ref s"
  "vms (cleanup_loop w ds s) = vms s"
  "queue (cleanup_loop w ds s) = queue s"
  "has (cleanup_loop w ds s) = has s"
  "circular (cleanup_loop w ds s) = circular s"
  "waiting (cleanup_loop w ds s) = waiting s"
  "flushing (cleanup_loop w ds s) = flushing s"
  "index (cleanup_loop w ds s) = index s"
  "dev (cleanup_loop w ds s) = dev s"
  "ssr (cleanup_loop w ds s) = ssr s"
  "events (cleanup_loop w ds s) = events s"
  "watchers (cleanup_loop w ds s) = watchers s"
  by (induction ds arbitrary: s; simp)+

lemma cleanupDeps_frame [simp]:
  "dep_uid (cleanupDeps w s) = dep_uid s"
  "target (cleanupDeps w s) = target s"
  "targetStack (cleanupDeps w s) = targetStack s"
  "watcher_uid (cleanupDeps w s) = watcher_uid s"
  "shouldObserve (cleanupDeps w s) = shouldObserve s"
  "heap (cleanupDeps w s) = heap s"
  "next_ref (cleanupDeps w s) = next_ref s"
  "vms (cleanupDeps w s) = vms s"
  "queue (cleanupDeps w s) = queue s"
  "has (cleanupDeps w s) = has s"
  "circular (cleanupDeps w s) = circular s"
  "waiting (cleanupDeps w s) = waiting s"
  "flushing (cleanupDeps w s) = flushing s"
  "index (cleanupDeps w s) = index s"
  "dev (cleanupDeps w s) = dev s"
  "ssr (cleanupDeps w s) = ssr s"
  "events (cleanupDeps w s) = events s"
  by (simp_all add: cleanupDeps_def Let_def)

lemma cleanupDeps_watcher:
  "watchers (cleanupDeps w s) w =
     (watchers s w)\<lparr>depIds := newDepIds (watchers s w), newDepIds := {},
                    deps := newDeps (watchers s w), newDeps := []\<rparr>"
  by (simp add: cleanupDeps_def Let_def upd_watcher_def)

lemma cleanupDeps_other: "w' \<noteq> w \<Longrightarrow> watchers (cleanupDeps w s) w' = watchers s w'"
  by (simp add: cleanupDeps_def Let_def upd_watcher_def)

lemma subs_removeSub: "subs (removeSub d w s) d' = (if d' = d then remove_item w (subs s d) else subs s d')"
  by (simp add: removeSub_def)

lemma cleanup_loop_count_other:
  "w' \<noteq> w \<Longrightarrow> count_list (subs (cleanup_loop w ds s) d) w' = count_list (subs s d) w'"
  by (induction ds arbitrary: s) (simp_all add: subs_removeSub remove_item_def count_list_remove1)

lemma cleanup_loop_keep:
  "d \<notin> set ds \<or> d \<in> newDepIds (watchers s w) \<Longrightarrow> subs (cleanup_loop w ds s) d = subs s d"
  by (induction ds arbitrary: s) (auto simp: subs_removeSub)

lemma cleanup_loop_drop:
  "d \<in> set ds \<Longrightarrow> d \<notin> newDepIds (watchers s w) \<Longrightarrow> count_list (subs s d) w \<le> 1
     \<Longrightarrow> count_list (subs (cleanup_loop w ds s) d) w = 0"
proof (induction ds arbitrary: s)
  case Nil
  then show ?case by simp
next
  case (Cons a ds)
  define s1 where "s1 = (if a \<notin> newDepIds (watchers s w) then removeSub a w s else s)"
  have w1: "watchers s1 = watchers s" by (simp add: s1_def)
  have le: "count_list (subs s1 d) w \<le> 1"
    using Cons.prems(3) by (auto simp: s1_def subs_removeSub remove_item_def count_list_remove1)
  show ?case
  proof (cases "d \<in> set ds")
    case True
    then show ?thesis using Cons.IH [of s1] Cons.prems(2) le w1 by (simp add: s1_def)
  next
    case False
    then have ad: "a = d" using Cons.prems(1) by simp
    have "count_list (subs s1 d) w = 0"
      using Cons.prems(2,3) ad by (simp add: s1_def subs_removeSub remove_item_def count_list_remove1)
    moreover have "subs (cleanup_loop w ds s1) d = subs s1 d"
      using False by (simp add: cleanup_loop_keep)
    ultimately show ?thesis by (simp add: s1_def)
  qed
qed

lemma cleanupDeps_count_other:
  "w' \<noteq> w \<Longrightarrow> count_list (subs (cleanupDeps w s) d) w' = count_list (subs s d) w'"
  by (simp add: cleanupDeps_def Let_def upd_watcher_def cleanup_loop_count_other)

lemma cleanupDeps_count:
  "count_list (subs s d) w \<le> 1 \<Longrightarrow>
     count_list (subs (cleanupDeps w s) d) w =
       (if d \<in> set (deps (watchers s w)) \<and> d \<notin> newDepIds (watchers s w) then 0
        else count_list (subs s d) w)"
  by (simp add: cleanupDeps_def Let_def upd_watcher_def cleanup_loop_drop cleanup_loop_keep)


lemma traverse_undef: "traverse (Suc m) VUndef s = Some s"
  by (simp add: traverse_def)

lemma exec_not_fuel_pos: "exec n p s = (s', r) \<Longrightarrow> r \<noteq> OutOfFuel \<Longrightarrow> n \<noteq> 0"
  by (cases n) auto

lemma get_reads_only_shape:
  assumes ro: "reads_only (getter (watchers s w))"
    and g: "get n w s = (s', r)" and nf: "r \<noteq> OutOfFuel"
  shows "\<exists>ds hs ds'.
           s' = cleanupDeps w (popTarget (fold tstep
                  (Inr (GetterCall w) # map Inl ds @ map Inr hs @ map Inl ds') (pushTarget (Some w) s))) \<and>
           (hs = [] \<or> (\<exists>e. hs = [HandleError e (vm (watchers s w))
                                  (''getter for watcher '' @ quoted (expression (watchers s w)))] \<and>
                            user (watchers s w) \<and>
                            pure_result (getter (watchers s w)) (heap s) = Exn e)) \<and>
           (user (watchers s w) \<longrightarrow> (\<forall>e. pure_result (getter (watchers s w)) (heap s) = Exn e \<longrightarrow> hs \<noteq> [])) \<and>
           r = getter_outcome (user (watchers s w)) (pure_result (getter (watchers s w)) (heap s))"
proof -
  obtain m where n: "n = Suc m" using g nf by (cases n) auto
  define s0 where "s0 = pushTarget (Some w) s"
  define s1 where "s1 = emit (GetterCall w) s0"
  have t0: "target s0 = Some w" by (simp add: s0_def pushTarget_def)
  have w0: "watchers s0 = watchers s" "heap s0 = heap s" by (simp_all add: s0_def)
  have s1t: "s1 = fold tstep [Inr (GetterCall w)] s0" by (simp add: s1_def)
  have w1: "watchers s1 = watchers s" "heap s1 = heap s" "target s1 = Some w"
    using w0 t0 by (simp_all add: s1_def)
  obtain s2 r0 where e: "exec m (getter (watchers s w)) s1 = (s2, r0)"
    by (cases "exec m (getter (watchers s w)) s1") auto
  have step: "get (Suc m) w s =
     (case (s2, r0) of (s2, OutOfFuel) \<Rightarrow> (s2, OutOfFuel) | (s2, r) \<Rightarrow> get_finally m w r s2)"
    using e w1 unfolding s1_def s0_def by (simp add: Let_def)
  have g': "get (Suc m) w s = (s', r)" using g unfolding n .
  note g2 = g' [unfolded step]
  have r0: "r0 \<noteq> OutOfFuel"
    using g2 nf by (cases r0) auto
  have gf: "get_finally m w r0 s2 = (s', r)"
    using g2 r0 by (cases r0) auto
  from exec_reads_only [OF ro e r0]
  obtain ds where s2: "s2 = fold depend ds s1" and r0eq: "r0 = pure_result (getter (watchers s w)) (heap s)"
    using w1 by auto
  have s2t: "s2 = fold tstep (Inr (GetterCall w) # map Inl ds) s0"
    using s2 s1t by (simp add: fold_depend_tstep)
  have t2: "target s2 = Some w" using s2t t0 by simp
  have rest2: "(watchers s2 w)\<lparr>newDeps := [], newDepIds := {}\<rparr> = (watchers s w)\<lparr>newDeps := [], newDepIds := {}\<rparr>"
    using fold_tstep_rest [OF t0, of "Inr (GetterCall w) # map Inl ds"] s2t w0 by simp
  note f2 = watcher_rest_fields [OF rest2]
  define W where "W = watchers s2 w"
  define hs where "hs = (case r0 of Exn e \<Rightarrow> if user W then [HandleError e (vm W)
                                   (''getter for watcher '' @ quoted (expression W))] else []
                         | _ \<Rightarrow> [])"
  define s3 where "s3 = (case r0 of
                          Exn e \<Rightarrow>
                            if user W
                            then handleError e (vm W)
                                   (''getter for watcher '' @ quoted (expression W)) s2
                            else s2
                        | _ \<Rightarrow> s2)"
  define val0 where "val0 = (case r0 of Ok v \<Rightarrow> v | _ \<Rightarrow> VUndef)"
  have s3t: "s3 = fold tstep (map Inr hs) s2"
    unfolding s3_def hs_def by (cases r0) (simp_all add: handleError_def)
  have g3: "(case (if deep W then traverse m val0 s3 else Some s3) of
               None \<Rightarrow> (s3, OutOfFuel)
             | Some s4 \<Rightarrow> (cleanupDeps w (popTarget s4),
                 case r0 of Exn e \<Rightarrow> if user W then Ok val0 else Exn e | _ \<Rightarrow> Ok val0)) = (s', r)"
    using gf unfolding W_def s3_def val0_def get_finally_def by (simp add: Let_def)
  obtain s4 where s4: "(if deep W then traverse m val0 s3 else Some s3) = Some s4"
    using g3 nf by (cases "(if deep W then traverse m val0 s3 else Some s3)") auto
  have res: "s' = cleanupDeps w (popTarget s4)"
             "r = (case r0 of Exn e \<Rightarrow> if user W then Ok val0 else Exn e | _ \<Rightarrow> Ok val0)"
    using g3 unfolding s4 by simp_all
  have "\<exists>ds'. s4 = fold depend ds' s3"
    using s4 traverse_tracks [of m val0 s3 s4] by (cases "deep W") (simp_all add: tracks_refl)
  then obtain ds' where s4t: "s4 = fold tstep (map Inl ds') s3"
    by (auto simp: fold_depend_tstep)
  have all: "s4 = fold tstep (Inr (GetterCall w) # map Inl ds @ map Inr hs @ map Inl ds') s0"
    using s4t s3t s2t by simp
  have uW: "user W = user (watchers s w)" "vm W = vm (watchers s w)"
    "expression W = expression (watchers s w)"
    using f2 unfolding W_def by simp_all
  define pr where "pr = pure_result (getter (watchers s w)) (heap s)"
  have hs': "hs = (case pr of Exn e \<Rightarrow> if user (watchers s w) then [HandleError e (vm (watchers s w))
                                   (''getter for watcher '' @ quoted (expression (watchers s w)))] else []
                         | _ \<Rightarrow> [])"
    unfolding hs_def uW r0eq pr_def ..
  have hsfacts: "hs = [] \<or> (\<exists>e. hs = [HandleError e (vm (watchers s w))
                                  (''getter for watcher '' @ quoted (expression (watchers s w)))] \<and>
                            user (watchers s w) \<and> pr = Exn e)"
    unfolding hs' by (cases pr) simp_all
  have hs2: "user (watchers s w) \<longrightarrow> (\<forall>e. pr = Exn e \<longrightarrow> hs \<noteq> [])"
    unfolding hs' by (cases pr) simp_all
  have rr: "r = getter_outcome (user (watchers s w)) pr"
    using r0 unfolding res(2) uW val0_def getter_outcome_def r0eq pr_def [symmetric]
    by (cases pr) simp_all
  show ?thesis
    using all res(1) hsfacts hs2 rr unfolding s0_def pr_def by blast
qed

lemma popTarget_frame2 [simp]: "events (popTarget s) = events s"
  by (simp add: popTarget_def)

lemma deps_read_append: "deps_read w (xs @ ys) = deps_read w xs \<union> deps_read w ys"
  by (auto simp: deps_read_def)

lemma deps_read_map_Depend: "deps_read w (map (Depend w) ds) = set ds"
  by (auto simp: deps_read_def)

lemma get_tracking:
  assumes ro: "reads_only (getter (watchers s w))"
    and g: "get n w s = (s', r)" and nf: "r \<noteq> OutOfFuel"
  shows get_watcher:
      "watchers s' w = (watchers s w)\<lparr>depIds := newDepIds (watchers s w) \<union> reads_during w s s',
           newDepIds := {}, deps := deps (watchers s' w), newDeps := []\<rparr>"
    and get_deps:
      "newDepIds (watchers s w) = set (newDeps (watchers s w)) \<Longrightarrow>
         set (deps (watchers s' w)) = newDepIds (watchers s w) \<union> reads_during w s s'"
    and get_other: "\<And>w'. w' \<noteq> w \<Longrightarrow> watchers s' w' = watchers s w'"
    and get_count_other:
      "\<And>d w'. w' \<noteq> w \<Longrightarrow> count_list (subs s' d) w' = count_list (subs s d) w'"
    and get_count:
      "\<And>d. count_list (subs s d) w +
              (if d \<in> reads_during w s s' \<and> d \<notin> newDepIds (watchers s w) \<and> d \<notin> depIds (watchers s w)
               then 1 else 0) \<le> 1 \<Longrightarrow>
            count_list (subs s' d) w =
              (if d \<in> set (deps (watchers s w)) \<and> d \<notin> newDepIds (watchers s w) \<union> reads_during w s s'
               then 0
               else count_list (subs s d) w +
                 (if d \<in> reads_during w s s' \<and> d \<notin> newDepIds (watchers s w) \<and> d \<notin> depIds (watchers s w)
                  then 1 else 0))"
    and get_events: "events s' = events s @ GetterCall w # drop (Suc (length (events s))) (events s')"
    and get_events_other:
      "\<And>w' d. w' \<noteq> w \<Longrightarrow> Depend w' d \<notin> set (drop (length (events s)) (events s'))"
    and get_getter_calls:
      "\<And>x. count_list (events s') (GetterCall x) =
             count_list (events s) (GetterCall x) + (if x = w then 1 else 0)"
    and get_frame: "heap s' = heap s" "queue s' = queue s" "has s' = has s" "vms s' = vms s"
      "target s' = target (popTarget (pushTarget (Some w) s))"
      "targetStack s' = targetStack (popTarget (pushTarget (Some w) s))"
    and get_result:
      "r = getter_outcome (user (watchers s w)) (pure_result (getter (watchers s w)) (heap s))"
proof -
  from get_reads_only_shape [OF ro g nf]
  obtain ds hs ds' where
    s': "s' = cleanupDeps w (popTarget (fold tstep
                  (Inr (GetterCall w) # map Inl ds @ map Inr hs @ map Inl ds') (pushTarget (Some w) s)))"
    and hs: "hs = [] \<or> (\<exists>e. hs = [HandleError e (vm (watchers s w))
                                  (''getter for watcher '' @ quoted (expression (watchers s w)))])"
    and r: "r = getter_outcome (user (watchers s w)) (pure_result (getter (watchers s w)) (heap s))"
    by blast
  define xs where "xs = Inr (GetterCall w) # map Inl ds @ map Inr hs @ map Inl ds'"
  define s0 where "s0 = pushTarget (Some w) s"
  define s4 where "s4 = fold tstep xs s0"
  define D where "D = set ds \<union> set ds'"
  have t0: "target s0 = Some w" by (simp add: s0_def pushTarget_def)
  have w0: "watchers s0 = watchers s" "subs s0 = subs s" "events s0 = events s"
    by (simp_all add: s0_def)
  have s'4: "s' = cleanupDeps w (popTarget s4)" using s' by (simp add: s4_def xs_def s0_def)
  have lx: "set (lefts xs) = D" by (auto simp: xs_def D_def split: sum.splits) (induction hs, auto)+
  have ev4: "events s4 = events s @ GetterCall w # map (Depend w) ds @ hs @ map (Depend w) ds'"
    unfolding s4_def using fold_tstep_events [OF t0, of xs] w0
    by (simp add: xs_def comp_def)
  have ev': "events s' = events s4" by (simp add: s'4)
  have hsD: "deps_read w hs = {}" "\<And>w' d. Depend w' d \<notin> set hs"
    using hs by (auto simp: deps_read_def)
  have dr: "deps_read w (drop (length (events s)) (events s')) = D"
    unfolding ev' ev4 using hsD
    by (simp add: deps_read_append deps_read_map_Depend D_def) (auto simp: deps_read_def)
  have nid4: "newDepIds (watchers s4 w) = newDepIds (watchers s w) \<union> D"
    unfolding s4_def using fold_tstep_newDepIds [OF t0, of xs] w0 lx by simp
  have nd4: "newDepIds (watchers s w) = set (newDeps (watchers s w)) \<Longrightarrow>
      set (newDeps (watchers s4 w)) = newDepIds (watchers s w) \<union> D"
    unfolding s4_def using fold_tstep_newDeps [OF t0, of xs] w0 nid4 [unfolded s4_def] by simp
  have rest4: "(watchers s4 w)\<lparr>newDeps := [], newDepIds := {}\<rparr> = (watchers s w)\<lparr>newDeps := [], newDepIds := {}\<rparr>"
    unfolding s4_def using fold_tstep_rest [OF t0, of xs] w0 by simp
  have oth4: "\<And>w'. w' \<noteq> w \<Longrightarrow> watchers s4 w' = watchers s w'"
    unfolding s4_def using fold_tstep_other [OF t0] w0 by simp
  have cnt4: "\<And>d w'. count_list (subs s4 d) w' = count_list (subs s d) w' +
         (if w' = w \<and> d \<in> D \<and> d \<notin> newDepIds (watchers s w) \<and> d \<notin> depIds (watchers s w) then 1 else 0)"
    unfolding s4_def using fold_tstep_count [OF t0, of xs] w0 lx by simp
  define s5 where "s5 = popTarget s4"
  have w5: "watchers s5 = watchers s4" "subs s5 = subs s4" by (simp_all add: s5_def)
  have s'5: "s' = cleanupDeps w s5" using s'4 by (simp add: s5_def)
  have Weq: "watchers s' w = (watchers s w)\<lparr>depIds := newDepIds (watchers s w) \<union> D, newDepIds := {},
                                            deps := newDeps (watchers s4 w), newDeps := []\<rparr>"
  proof -
    have "watchers s' w = (watchers s4 w)\<lparr>depIds := newDepIds (watchers s4 w), newDepIds := {},
                    deps := newDeps (watchers s4 w), newDeps := []\<rparr>"
      unfolding s'5 cleanupDeps_watcher w5 ..
    also have "\<dots> = ((watchers s4 w)\<lparr>newDeps := [], newDepIds := {}\<rparr>)\<lparr>depIds := newDepIds (watchers s w) \<union> D,
                    deps := newDeps (watchers s4 w)\<rparr>"
      by (simp add: nid4)
    also have "\<dots> = (watchers s w)\<lparr>depIds := newDepIds (watchers s w) \<union> D, newDepIds := {},
                                            deps := newDeps (watchers s4 w), newDeps := []\<rparr>"
      unfolding rest4 by simp
    finally show ?thesis .
  qed
  have oth: "\<forall>w'. w' \<noteq> w \<longrightarrow> watchers s' w' = watchers s w'"
    unfolding s'5 using oth4 w5 by (simp add: cleanupDeps_other)
  have cnto: "\<forall>d w'. w' \<noteq> w \<longrightarrow> count_list (subs s' d) w' = count_list (subs s d) w'"
    unfolding s'5 using cnt4 w5 by (simp add: cleanupDeps_count_other)
  have dp4: "deps (watchers s4 w) = deps (watchers s w)"
    using watcher_rest_fields(2) [OF rest4] .
  have cnt: "\<forall>d. count_list (subs s d) w +
                  (if d \<in> D \<and> d \<notin> newDepIds (watchers s w) \<and> d \<notin> depIds (watchers s w) then 1 else 0) \<le> 1 \<longrightarrow>
                count_list (subs s' d) w =
                  (if d \<in> set (deps (watchers s w)) \<and> d \<notin> newDepIds (watchers s w) \<union> D then 0
                   else count_list (subs s d) w +
                     (if d \<in> D \<and> d \<notin> newDepIds (watchers s w) \<and> d \<notin> depIds (watchers s w) then 1 else 0))"
  proof (intro allI impI)
    fix d
    assume le: "count_list (subs s d) w +
                  (if d \<in> D \<and> d \<notin> newDepIds (watchers s w) \<and> d \<notin> depIds (watchers s w) then 1 else 0) \<le> 1"
    have "count_list (subs s5 d) w \<le> 1" using le cnt4 [of d w] w5 by simp
    from cleanupDeps_count [OF this]
    show "count_list (subs s' d) w =
                  (if d \<in> set (deps (watchers s w)) \<and> d \<notin> newDepIds (watchers s w) \<union> D then 0
                   else count_list (subs s d) w +
                     (if d \<in> D \<and> d \<notin> newDepIds (watchers s w) \<and> d \<notin> depIds (watchers s w) then 1 else 0))"
      unfolding s'5 w5 dp4 nid4 cnt4 [of d w] by simp
  qed
  have evs: "events s' = events s @ GetterCall w # drop (Suc (length (events s))) (events s')"
    unfolding ev' ev4 by simp
  have nod: "\<forall>w' d. w' \<noteq> w \<longrightarrow> Depend w' d \<notin> set (drop (length (events s)) (events s'))"
    unfolding ev' ev4 using hsD(2) by auto
  have fr: "heap s' = heap s" "queue s' = queue s" "has s' = has s" "vms s' = vms s"
    unfolding s'4 s4_def s0_def by simp_all
  have dr': "reads_during w s s' = D" using dr by (simp add: reads_during_def)
  have Wd: "deps (watchers s' w) = newDeps (watchers s4 w)" using Weq by simp
  show "watchers s' w = (watchers s w)\<lparr>depIds := newDepIds (watchers s w) \<union> reads_during w s s',
           newDepIds := {}, deps := deps (watchers s' w), newDeps := []\<rparr>"
    unfolding dr' Wd by (rule Weq)
  show "newDepIds (watchers s w) = set (newDeps (watchers s w)) \<Longrightarrow>
         set (deps (watchers s' w)) = newDepIds (watchers s w) \<union> reads_during w s s'"
    unfolding dr' Wd by (rule nd4)
  show "\<And>w'. w' \<noteq> w \<Longrightarrow> watchers s' w' = watchers s w'" using oth by blast
  show "\<And>d w'. w' \<noteq> w \<Longrightarrow> count_list (subs s' d) w' = count_list (subs s d) w'"
    using cnto by blast
  show "\<And>d. count_list (subs s d) w +
              (if d \<in> reads_during w s s' \<and> d \<notin> newDepIds (watchers s w) \<and> d \<notin> depIds (watchers s w)
               then 1 else 0) \<le> 1 \<Longrightarrow>
            count_list (subs s' d) w =
              (if d \<in> set (deps (watchers s w)) \<and> d \<notin> newDepIds (watchers s w) \<union> reads_during w s s'
               then 0
               else count_list (subs s d) w +
                 (if d \<in> reads_during w s s' \<and> d \<notin> newDepIds (watchers s w) \<and> d \<notin> depIds (watchers s w)
                  then 1 else 0))"
    unfolding dr' using cnt by blast
  show "events s' = events s @ GetterCall w # drop (Suc (length (events s))) (events s')"
    by (rule evs)
  show "\<And>w' d. w' \<noteq> w \<Longrightarrow> Depend w' d \<notin> set (drop (length (events s)) (events s'))"
    using nod by blast
  show "\<And>x. count_list (events s') (GetterCall x) =
             count_list (events s) (GetterCall x) + (if x = w then 1 else 0)"
    unfolding ev' ev4 using hs by (auto simp: count_list_append count_list_0_iff)
  show "heap s' = heap s" "queue s' = queue s" "has s' = has s" "vms s' = vms s"
    by (rule fr)+
  show "target s' = target (popTarget (pushTarget (Some w) s))"
    "targetStack s' = targetStack (popTarget (pushTarget (Some w) s))"
    unfolding s'4 s4_def s0_def by (simp_all add: popTarget_def)
  show "r = getter_outcome (user (watchers s w)) (pure_result (getter (watchers s w)) (heap s))"
    by (rule r)
qed

lemma watcher_depend_frame [simp]:
  "dep_uid (watcher_depend w s) = dep_uid s"
  "target (watcher_depend w s) = target s"
  "targetStack (watcher_depend w s) = targetStack s"
  "watcher_uid (watcher_depend w s) = watcher_uid s"
  "shouldObserve (watcher_depend w s) = shouldObserve s"
  "heap (watcher_depend w s) = heap s"
  "next_ref (watcher_depend w s) = next_ref s"
  "vms (watcher_depend w s) = vms s"
  "queue (watcher_depend w s) = queue s"
  "has (watcher_depend w s) = has s"
  "circular (watcher_depend w s) = circular s"
  "waiting (watcher_depend w s) = waiting s"
  "flushing (watcher_depend w s) = flushing s"
  "index (watcher_depend w s) = index s"
  "dev (watcher_depend w s) = dev s"
  "ssr (watcher_depend w s) = ssr s"
  by (simp_all add: watcher_depend_def split: option.splits)

lemma depend_rest_any:
  "(watchers (depend d s) x)\<lparr>newDeps := [], newDepIds := {}\<rparr> = (watchers s x)\<lparr>newDeps := [], newDepIds := {}\<rparr>"
proof (cases "target s")
  case None
  then show ?thesis by (simp add: depend_def)
next
  case (Some t)
  show ?thesis
    using depend_rest [OF Some, of d] depend_other [OF Some, of x d] by (cases "x = t") simp_all
qed

lemma watcher_depend_rest:
  "(watchers (watcher_depend w s) x)\<lparr>newDeps := [], newDepIds := {}\<rparr> = (watchers s x)\<lparr>newDeps := [], newDepIds := {}\<rparr>"
  by (simp add: watcher_depend_def depend_rest_any split: option.splits)

lemma depend_getter_calls: "count_list (events (depend d s)) (GetterCall x) = count_list (events s) (GetterCall x)"
proof (cases "target s")
  case None
  then show ?thesis by (simp add: depend_def)
next
  case (Some t)
  show ?thesis unfolding depend_events [OF Some] by simp
qed

lemma watcher_depend_getter_calls:
  "getter_calls x (events (watcher_depend w s)) = getter_calls x (events s)"
  by (simp add: watcher_depend_def getter_calls_def depend_getter_calls split: option.splits)

lemma heap_only_refl [simp]: "heap_only s s"
  unfolding heap_only_def by (rule exI [of _ "heap s"], rule exI [of _ "dep_uid s"]) simp

lemma heap_only_trans: "heap_only s s1 \<Longrightarrow> heap_only s1 s2 \<Longrightarrow> heap_only s s2"
proof -
  assume "heap_only s s1" "heap_only s1 s2"
  then obtain h u h' u' where "s1 = s\<lparr>heap := h, dep_uid := u\<rparr>" "s2 = s1\<lparr>heap := h', dep_uid := u'\<rparr>"
    unfolding heap_only_def by blast
  then have "s2 = s\<lparr>heap := h', dep_uid := u'\<rparr>" by simp
  then show ?thesis unfolding heap_only_def by blast
qed

lemma heap_only_heap [simp]: "heap_only s (s\<lparr>heap := h\<rparr>)"
  unfolding heap_only_def by (rule exI [of _ h], rule exI [of _ "dep_uid s"]) simp

lemma heap_only_uid [simp]: "heap_only s (s\<lparr>dep_uid := u\<rparr>)"
  unfolding heap_only_def by (rule exI [of _ "heap s"], rule exI [of _ u]) simp

lemma heap_only_both [simp]: "heap_only s (s\<lparr>dep_uid := u, heap := h\<rparr>)"
  unfolding heap_only_def by (rule exI [of _ h], rule exI [of _ u]) simp

lemma heap_only_setprop [simp]: "heap_only s (setprop r k p s)"
  by (simp add: setprop_def)

lemma observe_heap_only_aux:
  "(\<forall>v a s s' c. observe n v a s = Some (s', c) \<longrightarrow> heap_only s s') \<and>
   (\<forall>r s s'. Observer n r s = Some s' \<longrightarrow> heap_only s s') \<and>
   (\<forall>vs s s'. observeArray n vs s = Some s' \<longrightarrow> heap_only s s') \<and>
   (\<forall>r ks s s'. walk n r ks s = Some s' \<longrightarrow> heap_only s s') \<and>
   (\<forall>r k vo cs sh s s'. defineReactive n r k vo cs sh s = Some s' \<longrightarrow> heap_only s s')"
proof (induction n)
  case 0
  then show ?case by simp
next
  case (Suc n)
  note IHobserve = Suc.IH [THEN conjunct1, rule_format]
  note IHObserver = Suc.IH [THEN conjunct2, THEN conjunct1, rule_format]
  note IHarray = Suc.IH [THEN conjunct2, THEN conjunct2, THEN conjunct1, rule_format]
  note IHwalk = Suc.IH [THEN conjunct2, THEN conjunct2, THEN conjunct2, THEN conjunct1, rule_format]
  note IHdefine = Suc.IH [THEN conjunct2, THEN conjunct2, THEN conjunct2, THEN conjunct2, rule_format]
  have a: "heap_only s s'" if h: "observe (Suc n) v a s = Some (s', c)" for v a s s' c
  proof (cases "\<exists>r. v = VRef r")
    case False
    then have "s' = s" using h by (cases v) auto
    then show ?thesis by simp
  next
    case True
    then obtain r where v: "v = VRef r" by blast
    show ?thesis
    proof (cases "okind (heap s r) = VNodeObject")
      case True
      then have "s' = s" using h v by simp
      then show ?thesis by simp
    next
      case False
      define inner where "inner = (if ob (heap s r) \<noteq> None then Some (s, Some r)
                   else if shouldObserve s \<and> \<not> ssr s \<and>
                           (okind (heap s r) = ArrayObject \<or> okind (heap s r) = PlainObject) \<and>
                           extensible (heap s r) \<and> \<not> isVue (heap s r)
                   then (case Observer n r s of None \<Rightarrow> None | Some s1 \<Rightarrow> Some (s1, Some r))
                   else Some (s, None))"
      have h': "(case inner of
               None \<Rightarrow> None
             | Some (s2, None) \<Rightarrow> Some (s2, None)
             | Some (s2, Some a') \<Rightarrow>
                 if a
                 then Some (s2\<lparr>heap := (heap s2)(a' := (heap s2 a')
                         \<lparr>ob := map_option (\<lambda>b. b\<lparr>vmCount := vmCount b + 1\<rparr>) (ob (heap s2 a'))\<rparr>)\<rparr>,
                       Some a')
                 else Some (s2, Some a')) = Some (s', c)"
        using h v False unfolding inner_def by simp
      then obtain s2 co where i: "inner = Some (s2, co)" by (cases inner) auto
      have 1: "heap_only s s2"
        using i IHObserver unfolding inner_def by (auto split: if_splits option.splits)
      have 2: "heap_only s2 s'"
        using h' unfolding i by (cases co) (auto split: if_splits)
      from 1 2 show ?thesis by (rule heap_only_trans)
    qed
  qed
  have b: "heap_only s s'" if h: "Observer (Suc n) r s = Some s'" for r s s'
  proof -
    define s1 where "s1 = s\<lparr>dep_uid := dep_uid s + 1,
                 heap := (heap s)(r := (heap s r)\<lparr>ob := Some \<lparr>odep = dep_uid s, vmCount = 0\<rparr>\<rparr>)\<rparr>"
    have 1: "heap_only s s1" unfolding s1_def by simp
    have "(if okind (heap s1 r) = ArrayObject then observeArray n (items (heap s1 r)) s1
         else walk n r (map fst (props (heap s1 r))) s1) = Some s'"
      using h unfolding s1_def by (simp add: Let_def split: if_splits)
    then have "heap_only s1 s'"
      using IHarray IHwalk by (auto split: if_splits)
    with 1 show ?thesis by (rule heap_only_trans)
  qed
  have c: "heap_only s s'" if h: "observeArray (Suc n) vs s = Some s'" for vs s s'
    using h IHobserve IHarray by (cases vs) (auto split: option.splits, blast intro: heap_only_trans)
  have d: "heap_only s s'" if h: "walk (Suc n) r ks s = Some s'" for r ks s s'
    using h IHdefine IHwalk by (cases ks) (auto split: option.splits, blast intro: heap_only_trans)
  have e: "heap_only s s'" if h: "defineReactive (Suc n) r k vo cs sh s = Some s'" for r k vo cs sh s s'
  proof -
    define s0 where "s0 = s\<lparr>dep_uid := dep_uid s + 1\<rparr>"
    have 0: "heap_only s s0" unfolding s0_def by simp
    have "heap_only s0 s'"
      using h IHobserve unfolding s0_def
      by (auto simp: Let_def split: if_splits option.splits intro: heap_only_trans [OF _ heap_only_setprop])
    with 0 show ?thesis by (rule heap_only_trans)
  qed
  show ?case using a b c d e by blast
qed

lemma observe_heap_only: "observe n v a s = Some (s', c) \<Longrightarrow> heap_only s s'"
  using observe_heap_only_aux [of n, THEN conjunct1] by blast

lemma heap_only_fields:
  assumes "heap_only s s'"
  shows "watchers s' = watchers s" "events s' = events s" "subs s' = subs s" "target s' = target s"
    "targetStack s' = targetStack s" "queue s' = queue s" "has s' = has s" "vms s' = vms s"
    "circular s' = circular s" "waiting s' = waiting s" "flushing s' = flushing s"
    "index s' = index s" "dev s' = dev s" "ssr s' = ssr s" "shouldObserve s' = shouldObserve s"
    "watcher_uid s' = watcher_uid s" "next_ref s' = next_ref s"
  using assms unfolding heap_only_def by auto


text \<open>A torn-down watcher stays torn down, and its callback is not invoked.\<close>

lemma silent_refl: "\<not> active (watchers s w) \<Longrightarrow> silent w s s"
  by (simp add: silent_def)

lemma silent_trans: "silent w s s1 \<Longrightarrow> silent w s1 s2 \<Longrightarrow> silent w s s2"
  by (simp add: silent_def)

lemma silent_inactive: "silent w s s' \<Longrightarrow> \<not> active (watchers s' w)"
  by (simp add: silent_def)

lemma silent_frame:
  "\<not> active (watchers s w) \<Longrightarrow> watchers s' = watchers s \<Longrightarrow> events s' = events s \<Longrightarrow> silent w s s'"
  by (simp add: silent_def)

lemma silent_emit: "\<not> active (watchers s w) \<Longrightarrow> \<not> is_cb w e \<Longrightarrow> silent w s (emit e s)"
  by (simp add: silent_def emit_def cb_calls_def)

lemma silent_handleError: "\<not> active (watchers s w) \<Longrightarrow> silent w s (handleError e v i s)"
  by (simp add: handleError_def silent_emit)

lemma silent_pushTarget: "\<not> active (watchers s w) \<Longrightarrow> silent w s (pushTarget t s)"
  by (simp add: silent_def pushTarget_def)

lemma silent_popTarget: "\<not> active (watchers s w) \<Longrightarrow> silent w s (popTarget s)"
  by (simp add: silent_def popTarget_def)

lemma silent_depend: "\<not> active (watchers s w) \<Longrightarrow> silent w s (depend d s)"
proof -
  assume a: "\<not> active (watchers s w)"
  have "active (watchers (depend d s) w) = active (watchers s w)"
    using watcher_rest_fields(8) [OF depend_rest_any] .
  moreover have "cb_calls w (events (depend d s)) = cb_calls w (events s)"
  proof (cases "target s")
    case None
    then show ?thesis by (simp add: depend_def)
  next
    case (Some t)
    show ?thesis unfolding depend_events [OF Some] by (simp add: cb_calls_def)
  qed
  ultimately show ?thesis using a by (simp add: silent_def)
qed

lemma silent_fold_depend: "\<not> active (watchers s w) \<Longrightarrow> silent w s (fold depend ds s)"
proof (induction ds arbitrary: s)
  case Nil
  then show ?case by (simp add: silent_refl)
next
  case (Cons d ds)
  have 1: "silent w s (depend d s)" using Cons.prems by (rule silent_depend)
  have 2: "silent w (depend d s) (fold depend ds (depend d s))"
    using silent_inactive [OF 1] by (rule Cons.IH)
  show ?case using silent_trans [OF 1 2] by simp
qed

lemma silent_tracks:
  "\<not> active (watchers s w) \<Longrightarrow> \<exists>ds. s' = fold depend ds s \<Longrightarrow> silent w s s'"
  using silent_fold_depend by blast

lemma silent_watcher_depend: "\<not> active (watchers s w) \<Longrightarrow> silent w s (watcher_depend x s)"
  by (simp add: watcher_depend_def silent_depend silent_refl split: option.splits)

lemma silent_cleanupDeps: "\<not> active (watchers s w) \<Longrightarrow> silent w s (cleanupDeps x s)"
  by (cases "x = w") (simp_all add: silent_def cleanupDeps_watcher cleanupDeps_other)

lemma fold_removeSub_frame [simp]:
  "watchers (fold (\<lambda>d. removeSub d w) ds s) = watchers s"
  "events (fold (\<lambda>d. removeSub d w) ds s) = events s"
  "vms (fold (\<lambda>d. removeSub d w) ds s) = vms s"
  by (induction ds arbitrary: s; simp)+

lemma teardown_events [simp]: "events (teardown x s) = events s"
  by (simp add: teardown_def Let_def upd_watcher_def)

lemma teardown_active:
  "active (watchers (teardown x s) w) = (active (watchers s w) \<and> w \<noteq> x)"
  by (auto simp: teardown_def Let_def upd_watcher_def)

lemma silent_teardown: "\<not> active (watchers s w) \<Longrightarrow> silent w s (teardown x s)"
  by (simp add: silent_def teardown_active)

lemma silent_queueWatcher: "\<not> active (watchers s w) \<Longrightarrow> silent w s (queueWatcher x s)"
  by (simp add: silent_def queueWatcher_def Let_def emit_def cb_calls_def)

lemma silent_upd_watcher:
  "\<not> active (watchers s w) \<Longrightarrow> (\<And>W. active (f W) = active W) \<Longrightarrow> silent w s (upd_watcher x f s)"
  by (auto simp: silent_def upd_watcher_def)

lemma silent_heap_only: "\<not> active (watchers s w) \<Longrightarrow> heap_only s s' \<Longrightarrow> silent w s s'"
  by (rule silent_frame) (simp_all add: heap_only_fields(1,2))

lemma silent_upd_prop: "\<not> active (watchers s w) \<Longrightarrow> silent w s (upd_prop r k f s)"
  by (rule silent_frame) simp_all

lemma silent_plain_write: "\<not> active (watchers s w) \<Longrightarrow> silent w s (plain_write r k v s)"
  by (rule silent_frame) simp_all

lemma silent_andThen:
  assumes "silent w s (fst m)"
    and "\<And>s1 v. \<not> active (watchers s1 w) \<Longrightarrow> silent w s1 (fst (f s1 v))"
  shows "silent w s (fst (andThen m f))"
proof (cases m)
  case (Pair s1 r)
  have 1: "silent w s s1" using assms(1) Pair by simp
  show ?thesis
  proof (cases r)
    case (Ok v)
    have "silent w s1 (fst (f s1 v))" using silent_inactive [OF 1] by (rule assms(2))
    then show ?thesis using 1 Pair Ok by (simp add: andThen_def silent_trans [OF 1])
  qed (use 1 Pair in \<open>simp_all add: andThen_def\<close>)
qed

lemma silent_get_finally:
  assumes a: "\<not> active (watchers s w)"
  shows "silent w s (fst (get_finally n x r s))"
proof -
  define s3 where "s3 = (case r of
                  Exn e \<Rightarrow>
                    if user (watchers s x)
                    then handleError e (vm (watchers s x)) (''getter for watcher '' @ quoted (expression (watchers s x))) s
                    else s
                | _ \<Rightarrow> s)"
  define val0 where "val0 = (case r of Ok v \<Rightarrow> v | _ \<Rightarrow> VUndef)"
  have 3: "silent w s s3"
    unfolding s3_def using a by (cases r) (simp_all add: silent_refl silent_handleError)
  show ?thesis
  proof (cases "if deep (watchers s x) then traverse n val0 s3 else Some s3")
    case None
    then show ?thesis
      using 3 unfolding get_finally_def Let_def s3_def [symmetric] val0_def [symmetric] by simp
  next
    case (Some s4)
    have "\<exists>ds. s4 = fold depend ds s3"
      using Some traverse_tracks [of n val0 s3 s4] by (auto simp: tracks_refl split: if_splits)
    then have 4: "silent w s3 s4" using silent_inactive [OF 3] by (rule silent_tracks [rotated])
    have p5a: "silent w s4 (popTarget s4)"
      using silent_inactive [OF 4] by (rule silent_popTarget)
    have p5b: "silent w (popTarget s4) (cleanupDeps x (popTarget s4))"
      using silent_inactive [OF p5a] by (rule silent_cleanupDeps)
    note p5 = silent_trans [OF p5a p5b]
    show ?thesis
      using Some silent_trans [OF 3 silent_trans [OF 4 p5]]
      unfolding get_finally_def Let_def s3_def [symmetric] val0_def [symmetric] by simp
  qed
qed

section \<open>Subscriptions stay unique\<close>

lemma sub_invI:
  assumes "\<And>w. depIds (watchers s w) \<subseteq> set (deps (watchers s w))"
    and "\<And>w. newDepIds (watchers s w) \<subseteq> set (newDeps (watchers s w))"
    and "\<And>w d. count_list (subs s d) w \<le> 1"
    and "\<And>w d. w \<in> set (subs s d) \<Longrightarrow> d \<in> depIds (watchers s w) \<union> newDepIds (watchers s w)"
  shows "sub_inv s"
  using assms unfolding sub_inv_def by blast

lemma sub_inv_ids: "sub_inv s \<Longrightarrow> depIds (watchers s w) \<subseteq> set (deps (watchers s w))"
  and sub_inv_newIds: "sub_inv s \<Longrightarrow> newDepIds (watchers s w) \<subseteq> set (newDeps (watchers s w))"
  and sub_inv_count: "sub_inv s \<Longrightarrow> count_list (subs s d) w \<le> 1"
  and sub_inv_mem: "sub_inv s \<Longrightarrow> w \<in> set (subs s d) \<Longrightarrow> d \<in> depIds (watchers s w) \<union> newDepIds (watchers s w)"
  unfolding sub_inv_def by blast+

lemma sub_inv_pushTarget: "sub_inv s \<Longrightarrow> sub_inv (pushTarget t s)"
  by (simp add: sub_inv_def pushTarget_def)

lemma sub_inv_popTarget: "sub_inv s \<Longrightarrow> sub_inv (popTarget s)"
  by (simp add: sub_inv_def popTarget_def)

lemma sub_inv_emit: "sub_inv s \<Longrightarrow> sub_inv (emit e s)"
  by (simp add: sub_inv_def emit_def)

lemma count_remove_item_le: "count_list (remove_item x xs) y \<le> count_list xs y"
  by (simp add: remove_item_def count_list_remove1)

lemma set_remove_item_subset: "y \<in> set (remove_item x xs) \<Longrightarrow> y \<in> set xs"
  by (metis remove_item_def notin_set_remove1)

lemma sub_inv_removeSub:
  assumes "sub_inv s" shows "sub_inv (removeSub d w s)"
proof (rule sub_invI)
  fix w' d'
  show "count_list (subs (removeSub d w s) d') w' \<le> 1"
    using sub_inv_count [OF assms, of d' w'] count_remove_item_le [of w "subs s d" w']
    by (cases "d' = d") (auto simp: subs_removeSub)
  show "w' \<in> set (subs (removeSub d w s) d') \<Longrightarrow>
        d' \<in> depIds (watchers (removeSub d w s) w') \<union> newDepIds (watchers (removeSub d w s) w')"
    using sub_inv_mem [OF assms, of w' d'] set_remove_item_subset [of w' w "subs s d"]
    by (auto simp: subs_removeSub split: if_splits)
qed (use assms in \<open>simp_all add: sub_inv_ids sub_inv_newIds\<close>)

lemma sub_inv_addDep:
  assumes "sub_inv s" shows "sub_inv (addDep w d s)"
proof (cases "d \<in> newDepIds (watchers s w)")
  case True
  then show ?thesis using assms by (simp add: addDep_def)
next
  case False
  note new = this
  show ?thesis
  proof (rule sub_invI)
    fix w'
    show "depIds (watchers (addDep w d s) w') \<subseteq> set (deps (watchers (addDep w d s) w'))"
      using sub_inv_ids [OF assms, of w']
      by (cases "w' = w") (auto simp: addDep_def addSub_def upd_watcher_def Let_def)
    show "newDepIds (watchers (addDep w d s) w') \<subseteq> set (newDeps (watchers (addDep w d s) w'))"
      using sub_inv_newIds [OF assms, of w']
      by (cases "w' = w") (auto simp: addDep_def addSub_def upd_watcher_def Let_def)
  next
    fix w' d'
    have nomem: "d \<notin> depIds (watchers s w) \<Longrightarrow> count_list (subs s d) w = 0"
      using sub_inv_mem [OF assms, of w d] new by (auto simp: count_list_0_iff)
    show "count_list (subs (addDep w d s) d') w' \<le> 1"
      using sub_inv_count [OF assms, of d' w'] nomem
      by (cases "w' = w"; cases "d' = d") (auto simp: addDep_def addSub_def upd_watcher_def Let_def)
    show "w' \<in> set (subs (addDep w d s) d') \<Longrightarrow>
          d' \<in> depIds (watchers (addDep w d s) w') \<union> newDepIds (watchers (addDep w d s) w')"
      using sub_inv_mem [OF assms, of w' d']
      by (cases "w' = w"; cases "d' = d") (auto simp: addDep_def addSub_def upd_watcher_def Let_def split: if_splits)
  qed
qed

lemma sub_inv_depend: "sub_inv s \<Longrightarrow> sub_inv (depend d s)"
  by (auto simp: depend_def split: option.splits intro: sub_inv_addDep sub_inv_emit)


lemma sub_inv_cleanup_loop: "sub_inv s \<Longrightarrow> sub_inv (cleanup_loop w ds s)"
  by (induction ds arbitrary: s) (auto intro: sub_inv_removeSub)

lemma cleanup_loop_mem: "x \<in> set (subs (cleanup_loop w ds s) d) \<Longrightarrow> x \<in> set (subs s d)"
proof (induction ds arbitrary: s)
  case Nil
  then show ?case by simp
next
  case (Cons a ds)
  from Cons.IH [OF Cons.prems [simplified]] show ?case
    by (auto simp: subs_removeSub split: if_splits dest: set_remove_item_subset)
qed

lemma remove_item_gone: "count_list xs w \<le> 1 \<Longrightarrow> w \<notin> set (remove_item w xs)"
  by (simp add: remove_item_def count_list_0_iff [symmetric] count_list_remove1)

lemma cleanup_loop_removes:
  "d \<in> set ds \<Longrightarrow> d \<notin> newDepIds (watchers s w) \<Longrightarrow> count_list (subs s d) w \<le> 1
     \<Longrightarrow> w \<notin> set (subs (cleanup_loop w ds s) d)"
proof (induction ds arbitrary: s)
  case Nil
  then show ?case by simp
next
  case (Cons a ds)
  show ?case
  proof (cases "a = d")
    case True
    have "w \<notin> set (subs (removeSub d w s) d)"
      using Cons.prems(3) by (simp add: subs_removeSub remove_item_gone)
    then show ?thesis
      using True Cons.prems(2) cleanup_loop_mem [of w w ds "removeSub d w s" d] by auto
  next
    case False
    then have "d \<in> set ds" using Cons.prems(1) by simp
    moreover have "count_list (subs (if a \<notin> newDepIds (watchers s w) then removeSub a w s else s) d) w \<le> 1"
      using Cons.prems(3) False by (simp add: subs_removeSub)
    ultimately show ?thesis
      using Cons.IH [of "if a \<notin> newDepIds (watchers s w) then removeSub a w s else s"] Cons.prems(2)
      by simp
  qed
qed

lemma sub_inv_cleanupDeps:
  assumes "sub_inv s" shows "sub_inv (cleanupDeps w s)"
proof -
  define s1 where "s1 = cleanup_loop w (rev (deps (watchers s w))) s"
  have inv1: "sub_inv s1" unfolding s1_def by (rule sub_inv_cleanup_loop [OF assms])
  have w1: "watchers s1 = watchers s" unfolding s1_def by simp
  have gone: "d \<in> newDepIds (watchers s w)" if "w \<in> set (subs s1 d)" for d
  proof (rule ccontr)
    assume n: "d \<notin> newDepIds (watchers s w)"
    have "w \<in> set (subs s d)" using that cleanup_loop_mem unfolding s1_def by blast
    then have "d \<in> depIds (watchers s w)" using sub_inv_mem [OF assms] n by blast
    then have "d \<in> set (rev (deps (watchers s w)))" using sub_inv_ids [OF assms] by auto
    then have "w \<notin> set (subs s1 d)"
      unfolding s1_def by (rule cleanup_loop_removes [OF _ n sub_inv_count [OF assms]])
    then show False using that by simp
  qed
  have eq: "cleanupDeps w s = upd_watcher w (\<lambda>W. W\<lparr>depIds := newDepIds W, newDepIds := {},
                               deps := newDeps W, newDeps := []\<rparr>) s1"
    by (simp add: cleanupDeps_def s1_def Let_def)
  show ?thesis unfolding eq
  proof (rule sub_invI)
    fix w'
    show "depIds (watchers (upd_watcher w (\<lambda>W. W\<lparr>depIds := newDepIds W, newDepIds := {},
                               deps := newDeps W, newDeps := []\<rparr>) s1) w')
       \<subseteq> set (deps (watchers (upd_watcher w (\<lambda>W. W\<lparr>depIds := newDepIds W, newDepIds := {},
                               deps := newDeps W, newDeps := []\<rparr>) s1) w'))"
      using sub_inv_ids [OF inv1, of w'] sub_inv_newIds [OF inv1, of w']
      by (cases "w' = w") (auto simp: upd_watcher_def)
    show "newDepIds (watchers (upd_watcher w (\<lambda>W. W\<lparr>depIds := newDepIds W, newDepIds := {},
                               deps := newDeps W, newDeps := []\<rparr>) s1) w')
       \<subseteq> set (newDeps (watchers (upd_watcher w (\<lambda>W. W\<lparr>depIds := newDepIds W, newDepIds := {},
                               deps := newDeps W, newDeps := []\<rparr>) s1) w'))"
      using sub_inv_newIds [OF inv1, of w']
      by (cases "w' = w") (auto simp: upd_watcher_def)
  next
    fix w' d
    show "count_list (subs (upd_watcher w (\<lambda>W. W\<lparr>depIds := newDepIds W, newDepIds := {},
                               deps := newDeps W, newDeps := []\<rparr>) s1) d) w' \<le> 1"
      using sub_inv_count [OF inv1, of d w'] by (simp add: upd_watcher_def)
    show "w' \<in> set (subs (upd_watcher w (\<lambda>W. W\<lparr>depIds := newDepIds W, newDepIds := {},
                               deps := newDeps W, newDeps := []\<rparr>) s1) d) \<Longrightarrow>
          d \<in> depIds (watchers (upd_watcher w (\<lambda>W. W\<lparr>depIds := newDepIds W, newDepIds := {},
                               deps := newDeps W, newDeps := []\<rparr>) s1) w')
            \<union> newDepIds (watchers (upd_watcher w (\<lambda>W. W\<lparr>depIds := newDepIds W, newDepIds := {},
                               deps := newDeps W, newDeps := []\<rparr>) s1) w')"
      using sub_inv_mem [OF inv1, of w' d] gone [of d] w1
      by (cases "w' = w") (auto simp: upd_watcher_def)
  qed
qed

lemma sub_inv_fold_removeSub: "sub_inv s \<Longrightarrow> sub_inv (fold (\<lambda>d. removeSub d w) ds s)"
  by (induction ds arbitrary: s) (auto intro: sub_inv_removeSub)

lemma sub_inv_teardown:
  assumes "sub_inv s" shows "sub_inv (teardown w s)"
proof (cases "active (watchers s w)")
  case False
  then show ?thesis using assms by (simp add: teardown_def)
next
  case True
  have v: "sub_inv (s\<lparr>vms := f\<rparr>)" for f using assms by (simp add: sub_inv_def)
  have a: "sub_inv t \<Longrightarrow> sub_inv (upd_watcher w (\<lambda>W. W\<lparr>active := False\<rparr>) t)" for t
    unfolding sub_inv_def upd_watcher_def by simp
  define s1 where "s1 = (if \<not> isBeingDestroyed (vms s (vm (watchers s w)))
      then s\<lparr>vms := (vms s)(vm (watchers s w) := (vms s (vm (watchers s w)))
             \<lparr>vwatchers := remove_item w (vwatchers (vms s (vm (watchers s w))))\<rparr>)\<rparr>
      else s)"
  have "sub_inv s1" unfolding s1_def using v assms by simp
  then have "sub_inv (upd_watcher w (\<lambda>W. W\<lparr>active := False\<rparr>)
      (fold (\<lambda>d. removeSub d w) (rev (deps (watchers s1 w))) s1))"
    by (intro a sub_inv_fold_removeSub)
  moreover have "teardown w s = upd_watcher w (\<lambda>W. W\<lparr>active := False\<rparr>)
      (fold (\<lambda>d. removeSub d w) (rev (deps (watchers s1 w))) s1)"
    using True by (simp add: teardown_def Let_def s1_def)
  ultimately show ?thesis by simp
qed

lemma sub_inv_apply_op: "sub_inv s \<Longrightarrow> sub_inv (apply_op x s)"
  by (cases x) (simp_all add: sub_inv_depend sub_inv_pushTarget sub_inv_popTarget
      sub_inv_removeSub sub_inv_cleanupDeps sub_inv_teardown)

lemma sub_inv_fold_apply_op: "sub_inv s \<Longrightarrow> sub_inv (fold apply_op ops s)"
  by (induction ops arbitrary: s) (auto intro: sub_inv_apply_op)

lemma sub_inv_init: "sub_inv init"
  by (simp add: sub_inv_def init_def empty_watcher_def)


text \<open>
  Claim C7, as stated: \<open>Dep.addSub\<close> is idempotent. It is not: \<open>addSub\<close> is a plain
  \<open>push\<close>, and subscribing watcher 1 to Dep 0 a second time gives the list \<open>[1, 1]\<close>.
\<close>

theorem addSub_not_idempotent:
  "subs (addSub 0 1 (addSub 0 1 init)) 0 \<noteq> subs (addSub 0 1 init) 0"
  by (simp add: addSub_def init_def)

text \<open>
  Claim C7, amended: \<open>Dep.addSub\<close> appends unconditionally; uniqueness is kept by
  \<open>Watcher.addDep\<close>, which calls \<open>addSub\<close> only for a Dep whose id is in neither
  \<open>newDepIds\<close> nor \<open>depIds\<close>. From a state with consistent bookkeeping (\<open>sub_inv\<close>, which
  the initial state satisfies), after any sequence of \<open>depend\<close> (track), \<open>pushTarget\<close>,
  \<open>popTarget\<close>, \<open>removeSub\<close> (unsubscribe), \<open>cleanupDeps\<close> and \<open>teardown\<close>, every
  watcher is at most once in every subscriber list.
\<close>

theorem subscription_unique:
  "sub_inv s \<Longrightarrow> count_list (subs (fold apply_op ops s) d) w \<le> 1"
  using sub_inv_count [OF sub_inv_fold_apply_op] by blast

theorem subscription_unique_witness:
  "sub_inv init \<and>
   count_list (subs (fold apply_op [PushT (Some 1), Track 0, Track 0, Cleanup 1, Track 0, PopT] init) 0) 1 \<le> 1 \<and>
   subs (fold apply_op [PushT (Some 1), Track 0, Track 0, Cleanup 1, Track 0, PopT] init) 0 = [1]"
proof (intro conjI)
  show "sub_inv init" by (rule sub_inv_init)
  show "count_list (subs (fold apply_op [PushT (Some 1), Track 0, Track 0, Cleanup 1, Track 0, PopT] init) 0) 1 \<le> 1"
    by (rule subscription_unique [OF sub_inv_init])
  show "subs (fold apply_op [PushT (Some 1), Track 0, Track 0, Cleanup 1, Track 0, PopT] init) 0 = [1]"
    by (simp add: init_def empty_watcher_def pushTarget_def popTarget_def depend_def
      addDep_def addSub_def upd_watcher_def emit_def cleanupDeps_def Let_def)
qed

section \<open>Dependencies after an evaluation\<close>






section \<open>A getter that throws\<close>

text \<open>
  Claim C6, as stated: when the getter of a user watcher throws, the evaluation returns the
  previous cached value. It returns \<open>undefined\<close>: \<open>get\<close> returns its local \<open>value\<close>, which
  was never assigned. Here the cached value is 1.
\<close>

theorem get_returns_undefined_not_cached:
  "wvalue (watchers ex_throwing 1) = VNum 1 \<and> snd (get 5 1 ex_throwing) = Ok VUndef"
  by code_simp

text \<open>
  Claim C6, amended: when the getter of a watcher throws \<open>e\<close>, then for a user watcher the
  error is reported through \<open>handleError\<close> with the text
  \<open>getter for watcher "<expression>"\<close>, the target is popped, the dependencies are cleaned up
  and \<open>get\<close> returns \<open>undefined\<close> normally; for any other watcher the same cleanup happens,
  nothing is reported, and the error is thrown again to the caller of \<open>get\<close>.
\<close>

theorem getter_error_handling:
  assumes "exec n (getter (watchers s w)) (emit (GetterCall w) (pushTarget (Some w) s)) = (s2, Exn e)"
  shows "(user (watchers s2 w) \<longrightarrow>
            get (Suc n) w s =
              (cleanupDeps w (popTarget (handleError e (vm (watchers s2 w))
                 (''getter for watcher '' @ quoted (expression (watchers s2 w))) s2)), Ok VUndef)) \<and>
         (\<not> user (watchers s2 w) \<longrightarrow>
            get (Suc n) w s = (cleanupDeps w (popTarget s2), Exn e))"
proof -
  obtain m where n: "n = Suc m" using assms by (cases n) auto
  have tr: "\<And>t. traverse n VUndef t = Some t" unfolding n by (rule traverse_undef)
  have "get (Suc n) w s = get_finally n w (Exn e) s2"
    using assms by (simp add: Let_def)
  then show ?thesis
    by (simp add: get_finally_def Let_def tr)
qed

theorem getter_error_handling_witness:
  "exec 4 (getter (watchers ex_throwing 1)) (emit (GetterCall 1) (pushTarget (Some 1) ex_throwing))
     = (emit (GetterCall 1) (pushTarget (Some 1) ex_throwing), Exn ''oops'') \<and>
   user (watchers (emit (GetterCall 1) (pushTarget (Some 1) ex_throwing)) 1) \<and>
   snd (get (Suc 4) 1 ex_throwing) = Ok VUndef \<and>
   events (fst (get (Suc 4) 1 ex_throwing)) =
     [GetterCall 1, HandleError ''oops'' 0 (''getter for watcher '' @ quoted ''boom'')]"
proof -
  have g: "getter (watchers ex_throwing 1) = Throw ''oops''"
    by (simp add: ex_throwing_def)
  have x: "exec 4 (getter (watchers ex_throwing 1)) (emit (GetterCall 1) (pushTarget (Some 1) ex_throwing))
     = (emit (GetterCall 1) (pushTarget (Some 1) ex_throwing), Exn ''oops'')"
    unfolding g by (simp add: eval_nat_numeral)
  have u: "user (watchers (emit (GetterCall 1) (pushTarget (Some 1) ex_throwing)) 1)"
    by (simp add: ex_throwing_def)
  note t = getter_error_handling [OF x, THEN conjunct1, rule_format, OF u]
  have r: "snd (get (Suc 4) 1 ex_throwing) = Ok VUndef"
    unfolding t by simp
  have ev: "events (fst (get (Suc 4) 1 ex_throwing)) =
     [GetterCall 1, HandleError ''oops'' 0 (''getter for watcher '' @ quoted ''boom'')]"
    unfolding t by (simp add: ex_throwing_def ex_state_def init_def handleError_def emit_def empty_watcher_def)
  show ?thesis by (intro conjI x u r ev)
qed

section \<open>Lazy computed watchers\<close>

text \<open>
  Claim C5: a computed watcher whose own Dep has no subscriber answers \<open>update()\<close> by setting
  \<open>dirty\<close> and nothing else (its getter is not called). The next read through the computed
  getter then calls the getter exactly once, clears \<open>dirty\<close>, caches and returns the value that
  the getter has on the current heap; a further read returns the cached value and does not
  call the getter.
\<close>

theorem lazy_watcher_recomputes_on_read:
  assumes comp: "computed (watchers s w)" and d: "wdep (watchers s w) = Some d"
    and nosubs: "subs s d = []"
    and ro: "reads_only (getter (watchers s w))"
    and v: "pure_result (getter (watchers s w)) (heap s) = Ok v"
    and s1: "s1 = upd_watcher w (\<lambda>W. W\<lparr>dirty := True\<rparr>) s"
    and rd: "computedGetter n w s1 = (s2, r)" and nf: "r \<noteq> OutOfFuel"
  shows "update (Suc k) w s = (s1, Ok VUndef) \<and> events s1 = events s \<and>
         r = Ok v \<and> getter_calls w (events s2) = getter_calls w (events s) + 1 \<and>
         \<not> dirty (watchers s2 w) \<and> wvalue (watchers s2 w) = v \<and>
         snd (computedGetter (Suc m) w s2) = Ok v \<and>
         getter_calls w (events (fst (computedGetter (Suc m) w s2))) = getter_calls w (events s2)"
proof -
  have u: "update (Suc k) w s = (s1, Ok VUndef)"
    using comp d nosubs by (simp add: s1)
  have e1: "events s1 = events s" by (simp add: s1)
  define s1' where "s1' = watcher_depend w s1"
  have W1: "watchers s1 w = (watchers s w)\<lparr>dirty := True\<rparr>" by (simp add: s1 upd_watcher_def)
  have rest1: "(watchers s1' w)\<lparr>newDeps := [], newDepIds := {}\<rparr> = (watchers s1 w)\<lparr>newDeps := [], newDepIds := {}\<rparr>"
    unfolding s1'_def by (rule watcher_depend_rest)
  note f1 = watcher_rest_fields [OF rest1]
  have dirty1: "dirty (watchers s1' w)" using f1(11) W1 by simp
  have g1: "getter (watchers s1' w) = getter (watchers s w)" using f1(7) W1 by simp
  have u1: "user (watchers s1' w) = user (watchers s w)" using f1(3) W1 by simp
  have h1: "heap s1' = heap s" by (simp add: s1'_def s1)
  obtain n' where n: "n = Suc n'"
    using rd nf by (cases n) (auto simp: computedGetter_def)
  obtain s2' r' where g: "get n' w s1' = (s2', r')" by (cases "get n' w s1'") auto
  have ev: "evaluate (Suc n') w s1' =
      andThen (s2', r') (\<lambda>s1 v. (upd_watcher w (\<lambda>W. W\<lparr>wvalue := v, dirty := False\<rparr>) s1, Ok v))"
    using dirty1 g by simp
  have rd': "evaluate (Suc n') w s1' = (s2, r)"
    using rd unfolding computedGetter_def n s1'_def .
  have nf': "r' \<noteq> OutOfFuel"
    using rd' nf unfolding ev by (cases r') (auto simp: andThen_def)
  have ro': "reads_only (getter (watchers s1' w))" using ro g1 by simp
  have r': "r' = Ok v"
    using get_result [OF ro' g nf'] unfolding g1 h1 v by (simp add: getter_outcome_def)
  have s2: "s2 = upd_watcher w (\<lambda>W. W\<lparr>wvalue := v, dirty := False\<rparr>) s2'" and r: "r = Ok v"
    using rd' unfolding ev r' by (simp_all add: andThen_def)
  have gc: "getter_calls w (events s2) = getter_calls w (events s) + 1"
    using get_getter_calls [OF ro' g nf', of w] watcher_depend_getter_calls [of w w s1] e1
    by (simp add: s2 getter_calls_def s1'_def)
  have W2: "\<not> dirty (watchers s2 w)" "wvalue (watchers s2 w) = v"
    by (simp_all add: s2 upd_watcher_def)
  define s3 where "s3 = watcher_depend w s2"
  have rest3: "(watchers s3 w)\<lparr>newDeps := [], newDepIds := {}\<rparr> = (watchers s2 w)\<lparr>newDeps := [], newDepIds := {}\<rparr>"
    unfolding s3_def by (rule watcher_depend_rest)
  note f3 = watcher_rest_fields [OF rest3]
  have again: "computedGetter (Suc m) w s2 = (s3, Ok v)"
    using f3(11) f3(12) W2 by (simp add: computedGetter_def s3_def [symmetric])
  have gc3: "getter_calls w (events s3) = getter_calls w (events s2)"
    unfolding s3_def by (rule watcher_depend_getter_calls)
  show ?thesis
    using u e1 r gc W2 again gc3 by simp
qed

lemma ex_lazy_read:
  "snd (computedGetter 10 2 (upd_watcher 2 (\<lambda>W. W\<lparr>dirty := True\<rparr>) ex_lazy)) = Ok (VNum 12)"
  "getter_calls 2 (events (fst (computedGetter 10 2 (upd_watcher 2 (\<lambda>W. W\<lparr>dirty := True\<rparr>) ex_lazy)))) = 1"
  by code_simp+

theorem lazy_watcher_recomputes_on_read_witness:
  "computed (watchers ex_lazy 2) \<and> wdep (watchers ex_lazy 2) = Some 9 \<and> subs ex_lazy 9 = [] \<and>
   reads_only (getter (watchers ex_lazy 2)) \<and>
   pure_result (getter (watchers ex_lazy 2)) (heap ex_lazy) = Ok (VNum 12) \<and>
   update (Suc 0) 2 ex_lazy = (upd_watcher 2 (\<lambda>W. W\<lparr>dirty := True\<rparr>) ex_lazy, Ok VUndef) \<and>
   snd (computedGetter 10 2 (upd_watcher 2 (\<lambda>W. W\<lparr>dirty := True\<rparr>) ex_lazy)) = Ok (VNum 12) \<and>
   getter_calls 2 (events (fst (computedGetter 10 2 (upd_watcher 2 (\<lambda>W. W\<lparr>dirty := True\<rparr>) ex_lazy)))) = 1"
proof -
  have a: "computed (watchers ex_lazy 2)" "wdep (watchers ex_lazy 2) = Some 9" "subs ex_lazy 9 = []"
    by (simp_all add: ex_lazy_def empty_watcher_def)
  have b: "reads_only (getter (watchers ex_lazy 2))"
    by (simp add: ex_lazy_def ex_double_def split: jsval.splits)
  have c: "pure_result (getter (watchers ex_lazy 2)) (heap ex_lazy) = Ok (VNum 12)"
    by (simp add: ex_lazy_def ex_double_def prop_value_def current_value_def reactive_prop_def absent_property_def)
  have g: "computedGetter 10 2 (upd_watcher 2 (\<lambda>W. W\<lparr>dirty := True\<rparr>) ex_lazy) =
      (fst (computedGetter 10 2 (upd_watcher 2 (\<lambda>W. W\<lparr>dirty := True\<rparr>) ex_lazy)),
       snd (computedGetter 10 2 (upd_watcher 2 (\<lambda>W. W\<lparr>dirty := True\<rparr>) ex_lazy)))"
    by (rule prod.collapse [symmetric])
  have nf: "snd (computedGetter 10 2 (upd_watcher 2 (\<lambda>W. W\<lparr>dirty := True\<rparr>) ex_lazy)) \<noteq> OutOfFuel"
    unfolding ex_lazy_read(1) by simp
  note t = lazy_watcher_recomputes_on_read [OF a b c refl g nf, of 0]
  have u: "update (Suc 0) 2 ex_lazy = (upd_watcher 2 (\<lambda>W. W\<lparr>dirty := True\<rparr>) ex_lazy, Ok VUndef)"
    using t by (rule conjunct1)
  show ?thesis
    by (intro conjI a b c u ex_lazy_read)
qed

end
